theory Spec2Isabelle
  imports
    Main
    "HOL-Library.Char_ord"
    "HOL-Library.List_Lexorder"
    "HOL-Library.Multiset"
begin

section \<open>C strings and the helpers of util.c\<close>

text \<open>
  A C string is modelled by the list of its bytes before the terminating NUL. The order on
  \<^typ>\<open>char\<close> is the order of the byte values (0 to 255), the order in which
  \<open>strcmp\<close> compares bytes, and the order on \<^typ>\<open>string\<close> is the lexicographic one.

  Where C leaves the behaviour of an operation undefined (a write past the end of an array, a
  null pointer handed to a string function or dereferenced, an \<open>atoi\<close> result that does
  not fit an \<open>int\<close>, a read of a buffer nobody wrote, a read of a record that has been
  freed and reused), the model returns a \<open>fault\<close> instead of a value, so that every theorem
  says where the code is defined. \<open>Broken_Pipe\<close> is not undefined behaviour: it is the
  death of the process by the signal SIGPIPE, which no program of the repository handles,
  raised by a write to a connection the peer has closed.
\<close>

datatype fault =
    Null_Pointer
  | Atoi_Overflow
  | Buffer_Overflow
  | Index_Out_Of_Bounds
  | Uninitialised_Read
  | Use_After_Free
  | Broken_Pipe

abbreviation LF :: char where "LF \<equiv> CHR 0x0A"
abbreviation CR :: char where "CR \<equiv> CHR 0x0D"
abbreviation NUL :: char where "NUL \<equiv> CHR 0x00"

text \<open>
  A buffer filled from a stream can hold NUL bytes, which \<open>fgets\<close> stores like any other
  byte. Every string function then reads the buffer as the C string that starts it: the
  bytes before the first NUL.
\<close>

definition c_str :: "string \<Rightarrow> string" where
  "c_str buffer = takeWhile (\<lambda>c. c \<noteq> NUL) buffer"

text \<open>\<open>s[i]\<close> for \<open>i \<le> strlen(s)\<close>: the terminator is read at \<open>i = strlen(s)\<close>.\<close>

definition c_at :: "string \<Rightarrow> nat \<Rightarrow> char" where
  "c_at s i = (if i < length s then s ! i else NUL)"

text \<open>
  \<open>strcmp\<close>: the C standard fixes the sign of the result only (by the first pair of bytes
  that differ, read as unsigned char); the callers test \<open>> 0\<close> and \<open>== 0\<close>.
\<close>

fun strcmp :: "string \<Rightarrow> string \<Rightarrow> int" where
  "strcmp [] [] = 0"
| "strcmp [] (b # bs) = -1"
| "strcmp (a # as) [] = 1"
| "strcmp (a # as) (b # bs) =
     (if a = b then strcmp as bs else if a < b then -1 else 1)"

text \<open>\<open>strcpy\<close> into a buffer of \<open>cap\<close> bytes: the string and its terminator must fit.\<close>

definition strcpy :: "nat \<Rightarrow> string \<Rightarrow> fault + string" where
  "strcpy cap s = (if length s < cap then Inr s else Inl Buffer_Overflow)"

text \<open>
  \<open>strtok(s, delim)\<close>: skips leading delimiters, returns the token up to the next delimiter
  (or \<open>NULL\<close> when nothing is left) and keeps the position after that delimiter for the
  next call \<open>strtok(NULL, delim)\<close>; the position is the second component.
\<close>

definition strtok :: "string \<Rightarrow> string \<Rightarrow> string option \<times> string" where
  "strtok s delim =
     (let t = dropWhile (\<lambda>c. c \<in> set delim) s
      in if t = [] then (None, [])
         else (Some (takeWhile (\<lambda>c. c \<notin> set delim) t),
               drop 1 (dropWhile (\<lambda>c. c \<notin> set delim) t)))"

text \<open>
  \<open>fgets(buffer, n, stream)\<close>: \<open>NULL\<close> at the end of the stream, else at most
  \<open>n - 1\<close> bytes, ending after the first newline; the rest stays in the stream.
\<close>

fun fgets_split :: "nat \<Rightarrow> string \<Rightarrow> string \<times> string" where
  "fgets_split 0 stream = ([], stream)"
| "fgets_split (Suc k) [] = ([], [])"
| "fgets_split (Suc k) (c # cs) =
     (if c = LF then ([c], cs)
      else (let (line, rest) = fgets_split k cs in (c # line, rest)))"

definition fgets :: "nat \<Rightarrow> string \<Rightarrow> (string \<times> string) option" where
  "fgets n stream = (if stream = [] then None else Some (fgets_split (n - 1) stream))"

text \<open>
  The lines a loop of \<open>fgets(buffer, n, stream)\<close> reads until the end of the stream,
  as the loops of the two \<open>command_listener\<close> functions do.
\<close>

function fgets_lines :: "nat \<Rightarrow> string \<Rightarrow> string list" where
  "fgets_lines n stream =
     (if n < 2 then []
      else case fgets n stream of
             None \<Rightarrow> []
           | Some (line, rest) \<Rightarrow> line # fgets_lines n rest)"
  by pat_completeness auto
termination
proof (relation "measure (\<lambda>(n, stream). length stream)")
  show "wf (measure (\<lambda>(n, stream). length stream))" by simp
next
  fix n :: nat and stream :: string and x :: "string \<times> string" and line rest :: string
  assume n: "\<not> n < 2" and fg: "fgets n stream = Some x" and x: "(line, rest) = x"
  have le: "length (snd (fgets_split k s)) \<le> length s" for k s
    by (induction k s rule: fgets_split.induct) (auto split: prod.splits)
  obtain c cs where s: "stream = c # cs" using fg by (cases stream) (auto simp: fgets_def)
  obtain k where k: "n - 1 = Suc k" using n by (cases "n - 1") auto
  have "fgets_split (Suc k) (c # cs) = (line, rest)"
    using fg x s k by (simp add: fgets_def)
  then have "rest = cs \<or> rest = snd (fgets_split k cs)"
    by (auto split: prod.splits if_splits)
  then have "length rest \<le> length cs"
    using le[of k cs] by auto
  then show "((n, rest), (n, stream)) \<in> measure (\<lambda>(n, stream). length stream)"
    using s by simp
qed

fun count_char :: "char \<Rightarrow> string \<Rightarrow> nat" where
  "count_char c [] = 0"
| "count_char c (x # xs) = (if c = x then 1 else 0) + count_char c xs"

fun count_occurrences :: "string \<Rightarrow> string \<Rightarrow> nat" where
  "count_occurrences [] occurrences = 0"
| "count_occurrences (c # cs) occurrences =
     count_char c occurrences + count_occurrences cs occurrences"

text \<open>\<open>isdigit\<close> and \<open>isspace\<close> in the C locale.\<close>

definition isdigit :: "char \<Rightarrow> bool" where
  "isdigit c \<longleftrightarrow> CHR ''0'' \<le> c \<and> c \<le> CHR ''9''"

definition isspace :: "char \<Rightarrow> bool" where
  "isspace c \<longleftrightarrow> c = CHR '' '' \<or> (CHR 0x09 \<le> c \<and> c \<le> CHR 0x0D)"

fun is_numeric :: "string \<Rightarrow> bool" where
  "is_numeric [] = True"
| "is_numeric (c # cs) = (if \<not> isdigit c then False else is_numeric cs)"

fun trim_newline :: "string \<Rightarrow> string" where
  "trim_newline [] = []"
| "trim_newline (c # cs) = (if c = LF then [] else c # trim_newline cs)"

definition INT_MAX :: int where "INT_MAX = 2147483647"
definition INT_MIN :: int where "INT_MIN = - 2147483648"
definition USHRT_MAX :: int where "USHRT_MAX = 65535"

definition digit_value :: "char \<Rightarrow> int" where
  "digit_value c = int (of_char c) - 48"

fun atoi_digits :: "int \<Rightarrow> string \<Rightarrow> int" where
  "atoi_digits acc [] = acc"
| "atoi_digits acc (c # cs) =
     (if isdigit c then atoi_digits (10 * acc + digit_value c) cs else acc)"

text \<open>
  \<open>atoi\<close>: leading white space, an optional sign, then the decimal digits up to the first
  other byte. The result is undefined in C when the value is not representable as an int.
\<close>

definition atoi :: "string \<Rightarrow> fault + int" where
  "atoi s =
     (let t = dropWhile isspace s;
          v = (case t of
                 [] \<Rightarrow> 0
               | c # cs \<Rightarrow>
                   if c = CHR ''-'' then - atoi_digits 0 cs
                   else if c = CHR ''+'' then atoi_digits 0 cs
                   else atoi_digits 0 t)
      in if INT_MIN \<le> v \<and> v \<le> INT_MAX then Inr v else Inl Atoi_Overflow)"

definition is_unsigned_short :: "string \<Rightarrow> fault + bool" where
  "is_unsigned_short s =
     (if \<not> is_numeric s then Inr False
      else case atoi s of
             Inl f \<Rightarrow> Inl f
           | Inr v \<Rightarrow> if v \<le> 0 \<or> v > USHRT_MAX then Inr False else Inr True)"

definition PORT_NUMBER_LENGTH :: nat where "PORT_NUMBER_LENGTH = 6"

definition string_or_port_size :: "string \<Rightarrow> nat" where
  "string_or_port_size s =
     (if length s \<ge> PORT_NUMBER_LENGTH then length s else PORT_NUMBER_LENGTH)"

section \<open>The sorting loops shared by sort_mapping and sort_visitors\<close>

text \<open>
  Both functions run the same two nested loops over the first \<open>n\<close> slots of an array,
  exchanging slot \<open>i\<close> with a later slot \<open>j\<close> whenever \<open>strcmp\<close> of their keys is
  positive. The key is the airport name in the registry and the aircraft ID in the node.
\<close>

function sort_inner_loop ::
  "('a \<Rightarrow> string) \<Rightarrow> nat \<Rightarrow> nat \<Rightarrow> nat \<Rightarrow> 'a list \<Rightarrow> 'a list" where
  "sort_inner_loop key n i j es =
     (if j < n
      then sort_inner_loop key n i (Suc j)
             (if strcmp (key (es ! i)) (key (es ! j)) > 0
              then (let greater = es ! i; lesser = es ! j
                    in (es[i := lesser])[j := greater])
              else es)
      else es)"
  by pat_completeness auto
termination
  by (relation "measure (\<lambda>(key, n, i, j, es). n - j)") auto

function sort_outer_loop ::
  "('a \<Rightarrow> string) \<Rightarrow> nat \<Rightarrow> nat \<Rightarrow> 'a list \<Rightarrow> 'a list" where
  "sort_outer_loop key n i es =
     (if i < n
      then sort_outer_loop key n (Suc i) (sort_inner_loop key n i (Suc i) es)
      else es)"
  by pat_completeness auto
termination
  by (relation "measure (\<lambda>(key, n, i, es). n - i)") auto

section \<open>The registry: mapper2310.c\<close>

definition MAX_AIRPORT_ID_LENGTH :: nat where "MAX_AIRPORT_ID_LENGTH = 490"
definition COMMAND_BUFFER_SIZE :: nat where "COMMAND_BUFFER_SIZE = 500"
definition MAX_MAP_ENTRIES :: nat where "MAX_MAP_ENTRIES = 1000"
definition ENTRY_NOT_FOUND :: int where "ENTRY_NOT_FOUND = -1"

record MapEntry =
  airportName :: string
  portNumber :: string

text \<open>
  \<open>struct Mapping\<close>: \<open>entries\<close> is the whole allocated array, of which the first
  \<open>entryCount\<close> slots have been written.
\<close>

record Mapping =
  entryCount :: nat
  entries :: "MapEntry list"

datatype Command = UNKNOWN_COMMAND | LIST_MAPPINGS | QUERY_MAPPING | ADD_MAPPING

text \<open>
  \<open>command_lexer\<close> trims the caller's buffer in place and classifies it: the result is the
  trimmed buffer and the command.
\<close>

definition command_lexer :: "string \<Rightarrow> string \<times> Command" where
  "command_lexer commandString =
     (let s = trim_newline commandString
      in (s,
          if strcmp s ''@'' = 0 then LIST_MAPPINGS
          else if c_at s 0 = CHR ''?'' then QUERY_MAPPING
          else if c_at s 0 = CHR ''!'' \<and> count_occurrences s '':'' = 1
                  \<and> length s > 3 \<and> c_at s 1 \<noteq> CHR '':''
                  \<and> c_at s (length s - 1) \<noteq> CHR '':''
                  \<and> count_occurrences s [CR, LF] = 0
          then ADD_MAPPING
          else UNKNOWN_COMMAND))"

function name_index_from :: "Mapping \<Rightarrow> string \<Rightarrow> nat \<Rightarrow> int" where
  "name_index_from mapping name i =
     (if i < entryCount mapping
      then (if strcmp name (airportName (entries mapping ! i)) = 0 then int i
            else name_index_from mapping name (Suc i))
      else ENTRY_NOT_FOUND)"
  by pat_completeness auto
termination
  by (relation "measure (\<lambda>(mapping, name, i). entryCount mapping - i)") auto

definition name_index_in_mapping :: "Mapping \<Rightarrow> string \<Rightarrow> int" where
  "name_index_in_mapping mapping name = name_index_from mapping name 0"

text \<open>
  \<open>add_map_entry\<close>: the two \<open>strcpy\<close> calls fill the fields of a local \<open>MapEntry\<close>
  (490 and 6 bytes), and the new entry is written at index \<open>entryCount\<close> with no
  comparison against the size of the array.
\<close>

definition add_map_entry :: "Mapping \<Rightarrow> string \<Rightarrow> fault + Mapping" where
  "add_map_entry mapping commandString =
     (let (airportName', rest) = strtok (tl commandString) '':'';
          (portNumber', rest') = strtok rest '':''
      in case portNumber' of
           None \<Rightarrow> Inl Null_Pointer
         | Some port \<Rightarrow>
            (case is_unsigned_short port of
               Inl f \<Rightarrow> Inl f
             | Inr False \<Rightarrow> Inr mapping
             | Inr True \<Rightarrow>
                (case airportName' of
                   None \<Rightarrow> Inl Null_Pointer
                 | Some name \<Rightarrow>
                    (case strcpy MAX_AIRPORT_ID_LENGTH name of
                       Inl f \<Rightarrow> Inl f
                     | Inr name' \<Rightarrow>
                        (case strcpy PORT_NUMBER_LENGTH port of
                           Inl f \<Rightarrow> Inl f
                         | Inr port' \<Rightarrow>
                            (let newEntry = \<lparr>airportName = name', portNumber = port'\<rparr>
                             in if name_index_in_mapping mapping name = ENTRY_NOT_FOUND
                                then (if entryCount mapping < length (entries mapping)
                                      then Inr (mapping
                                             \<lparr>entries := (entries mapping)
                                                           [entryCount mapping := newEntry],
                                              entryCount := entryCount mapping + 1\<rparr>)
                                      else Inl Index_Out_Of_Bounds)
                                else Inr mapping))))))"

text \<open>The bytes \<open>print_queried_mapping\<close> writes to the client's stream.\<close>

definition print_queried_mapping :: "Mapping \<Rightarrow> string \<Rightarrow> string" where
  "print_queried_mapping mapping commandString =
     (let entryIndex = name_index_in_mapping mapping (tl commandString)
      in if entryIndex \<noteq> ENTRY_NOT_FOUND
         then portNumber (entries mapping ! nat entryIndex) @ [LF]
         else [CHR '';'', LF])"

definition sort_mapping :: "Mapping \<Rightarrow> Mapping" where
  "sort_mapping mapping =
     mapping\<lparr>entries := sort_outer_loop airportName (entryCount mapping) 0 (entries mapping)\<rparr>"

definition entry_line :: "MapEntry \<Rightarrow> string" where
  "entry_line entry = airportName entry @ '':'' @ portNumber entry @ [LF]"

text \<open>
  \<open>print_mappings\<close> sorts the table in place and then prints its first \<open>entryCount\<close>
  slots: the result is the table it leaves and the bytes written.
\<close>

definition print_mappings :: "Mapping \<Rightarrow> Mapping \<times> string" where
  "print_mappings mapping =
     (let sorted' = sort_mapping mapping
      in (sorted',
          concat (map (\<lambda>i. entry_line (entries sorted' ! i)) [0 ..< entryCount sorted'])))"

text \<open>
  The body of the loop of \<open>command_listener\<close> for one line delivered by \<open>fgets\<close>, run
  between taking and releasing the lock: the table it leaves and the bytes sent back.
  \<open>clientMessage\<close> is the buffer as \<open>fgets\<close> filled it; the functions called read it
  as a C string.
\<close>

definition handle_command :: "Mapping \<Rightarrow> string \<Rightarrow> fault + (Mapping \<times> string)" where
  "handle_command mapping clientMessage =
     (let (message, commandType) = command_lexer (c_str clientMessage)
      in case commandType of
           LIST_MAPPINGS \<Rightarrow> Inr (print_mappings mapping)
         | QUERY_MAPPING \<Rightarrow> Inr (mapping, print_queried_mapping mapping message)
         | ADD_MAPPING \<Rightarrow>
            (case add_map_entry mapping message of
               Inl f \<Rightarrow> Inl f
             | Inr mapping' \<Rightarrow> Inr (mapping', []))
         | UNKNOWN_COMMAND \<Rightarrow> Inr (mapping, []))"

text \<open>
  The registry serving a sequence of lines, in the order in which their handlers take the
  lock; the responses are collected in the same order.
\<close>

fun serve :: "Mapping \<Rightarrow> string list \<Rightarrow> fault + (Mapping \<times> string list)" where
  "serve mapping [] = Inr (mapping, [])"
| "serve mapping (line # lines) =
     (case handle_command mapping line of
        Inl f \<Rightarrow> Inl f
      | Inr (mapping', out) \<Rightarrow>
         (case serve mapping' lines of
            Inl f \<Rightarrow> Inl f
          | Inr (mapping'', outs) \<Rightarrow> Inr (mapping'', out # outs)))"

text \<open>
  \<open>command_listener\<close> for one client alone: every line \<open>fgets\<close> reads from the
  client's stream is handled in turn.
\<close>

definition command_listener :: "Mapping \<Rightarrow> string \<Rightarrow> fault + (Mapping \<times> string list)" where
  "command_listener mapping receiveStream =
     serve mapping (fgets_lines COMMAND_BUFFER_SIZE receiveStream)"

text \<open>
  \<open>handle_connections\<close> allocates the array once, for \<open>MAX_MAP_ENTRIES\<close> entries; what
  \<open>malloc\<close> leaves in the slots is indeterminate (\<open>junk\<close>) and is never read.
\<close>

definition new_mapping :: "MapEntry \<Rightarrow> Mapping" where
  "new_mapping junk = \<lparr>entryCount = 0, entries = replicate MAX_MAP_ENTRIES junk\<rparr>"

section \<open>The service node: control2310.c\<close>

definition MAX_AIRCRAFT_NAME_LENGTH :: nat where "MAX_AIRCRAFT_NAME_LENGTH = 500"
definition MAX_VISITOR_ENTRIES :: nat where "MAX_VISITOR_ENTRIES = 1000"

record VisitorEntry =
  aircraftID :: string

text \<open>
  \<open>struct Visitors\<close>; its array field \<open>entries\<close> is called \<open>visitorEntries\<close> here,
  the name \<open>entries\<close> being taken by the registry's table.
\<close>

record Visitors =
  visitorCount :: nat
  visitorEntries :: "VisitorEntry list"

datatype ControlCommand = LOG_COMMAND | RECORD_VISIT_SEND_INFO

definition control_command_lexer :: "string \<Rightarrow> string \<times> ControlCommand" where
  "control_command_lexer commandString =
     (let s = trim_newline commandString
      in (s, if strcmp s ''log'' = 0 then LOG_COMMAND else RECORD_VISIT_SEND_INFO))"

definition sort_visitors :: "Visitors \<Rightarrow> Visitors" where
  "sort_visitors visitors =
     visitors\<lparr>visitorEntries :=
       sort_outer_loop aircraftID (visitorCount visitors) 0 (visitorEntries visitors)\<rparr>"

definition print_all_visitors :: "Visitors \<Rightarrow> Visitors \<times> string" where
  "print_all_visitors visitors =
     (let sorted' = sort_visitors visitors
      in (sorted',
          concat (map (\<lambda>i. aircraftID (visitorEntries sorted' ! i) @ [LF])
                    [0 ..< visitorCount sorted'])
          @ [CHR ''.'', LF]))"

text \<open>
  \<open>record_visit\<close>: \<open>strcpy\<close> into the 500 bytes of a local \<open>VisitorEntry\<close>, then a
  write at index \<open>visitorCount\<close> with no comparison against the size of the array.
\<close>

definition record_visit :: "Visitors \<Rightarrow> string \<Rightarrow> fault + Visitors" where
  "record_visit visitors commandString =
     (case strcpy MAX_AIRCRAFT_NAME_LENGTH commandString of
        Inl f \<Rightarrow> Inl f
      | Inr ident \<Rightarrow>
         (let newVisitor = \<lparr>aircraftID = ident\<rparr>
          in if visitorCount visitors < length (visitorEntries visitors)
             then Inr (visitors
                    \<lparr>visitorEntries := (visitorEntries visitors)
                                         [visitorCount visitors := newVisitor],
                     visitorCount := visitorCount visitors + 1\<rparr>)
             else Inl Index_Out_Of_Bounds))"

text \<open>
  The body of the loop of the node's \<open>command_listener\<close> for one line; \<open>clientMessage\<close>
  is the buffer as \<open>fgets\<close> filled it, read as a C string.
\<close>

definition control_handle_command ::
  "string \<Rightarrow> Visitors \<Rightarrow> string \<Rightarrow> fault + (Visitors \<times> string)" where
  "control_handle_command airportInfo visitors clientMessage =
     (let (message, commandType) = control_command_lexer (c_str clientMessage)
      in case commandType of
           LOG_COMMAND \<Rightarrow> Inr (print_all_visitors visitors)
         | RECORD_VISIT_SEND_INFO \<Rightarrow>
            (case record_visit visitors message of
               Inl f \<Rightarrow> Inl f
             | Inr visitors' \<Rightarrow> Inr (visitors', airportInfo @ [LF])))"

fun control_serve ::
  "string \<Rightarrow> Visitors \<Rightarrow> string list \<Rightarrow> fault + (Visitors \<times> string list)" where
  "control_serve airportInfo visitors [] = Inr (visitors, [])"
| "control_serve airportInfo visitors (line # lines) =
     (case control_handle_command airportInfo visitors line of
        Inl f \<Rightarrow> Inl f
      | Inr (visitors', out) \<Rightarrow>
         (case control_serve airportInfo visitors' lines of
            Inl f \<Rightarrow> Inl f
          | Inr (visitors'', outs) \<Rightarrow> Inr (visitors'', out # outs)))"

definition control_command_listener ::
  "string \<Rightarrow> Visitors \<Rightarrow> string \<Rightarrow> fault + (Visitors \<times> string list)" where
  "control_command_listener airportInfo visitors receiveStream =
     control_serve airportInfo visitors (fgets_lines COMMAND_BUFFER_SIZE receiveStream)"

definition new_visitors :: "VisitorEntry \<Rightarrow> Visitors" where
  "new_visitors junk =
     \<lparr>visitorCount = 0, visitorEntries = replicate MAX_VISITOR_ENTRIES junk\<rparr>"

section \<open>The itinerant client: roc2310.c\<close>

definition MAX_DEST_INFO_LENGTH :: nat where "MAX_DEST_INFO_LENGTH = 500"
definition RESPONSE_BUFFER_SIZE :: nat where "RESPONSE_BUFFER_SIZE = 500"

datatype RocError =
    ROC_NORMAL_OPERATION
  | ROC_INVALID_ARG_COUNT
  | ROC_INVALID_MAPPER_PORT
  | ROC_REQUIRE_MAPPER
  | ROC_ERROR_CONNECTING_MAPPER
  | ROC_CANNOT_RESOLVE_PORT
  | ROC_FAILED_TO_CONNECT

text \<open>
  The network is an input of the model: what \<open>connect_to_port\<close> finds behind a port.
  \<open>getaddrinfo\<close> may fail, and then the pointer \<open>ai\<close> is still null when
  \<open>ai->ai_addr\<close> is read. When it succeeds, the record is released by
  \<open>freeaddrinfo\<close> before \<open>ai->ai_addr\<close> is read: the read gives the address only
  if the allocator has left the released record as it was (\<open>Stale_Address\<close> when it has
  not). Then \<open>connect\<close> fails or gives a connection. A connection is the bytes its peer
  sends before closing, and the number of writes it takes before a further write raises
  SIGPIPE.
\<close>

datatype peer = No_Address | Stale_Address | Refused | Connected string nat

text \<open>
  \<open>connect_to_port\<close>: \<open>None\<close> when \<open>success\<close> is left false, else the two ends of
  the connection.
\<close>

definition connect_to_port :: "peer \<Rightarrow> fault + (string \<times> nat) option" where
  "connect_to_port p =
     (case p of
        No_Address \<Rightarrow> Inl Null_Pointer
      | Stale_Address \<Rightarrow> Inl Use_After_Free
      | Refused \<Rightarrow> Inr None
      | Connected receiveStream sendable \<Rightarrow> Inr (Some (receiveStream, sendable)))"

text \<open>A heap buffer: the number of bytes allocated and the string it holds.\<close>

record buffer =
  capacity :: nat
  content :: string

text \<open>
  The loop of \<open>resolve_destinations\<close>, after the connection to the registry: the number
  of writes the connection still takes, the stream of the registry's replies, the
  destinations, the index and \<open>allResolved\<close>. Each query is one \<open>fprintf\<close> and
  \<open>fflush\<close>, that is one write.
\<close>

function resolve_loop ::
  "nat \<Rightarrow> string \<Rightarrow> buffer list \<Rightarrow> nat \<Rightarrow> bool \<Rightarrow> fault + (buffer list \<times> bool)" where
  "resolve_loop sendable receiveStream destinations i allResolved =
     (if i < length destinations
      then (case is_unsigned_short (content (destinations ! i)) of
              Inl f \<Rightarrow> Inl f
            | Inr True \<Rightarrow> resolve_loop sendable receiveStream destinations (Suc i) allResolved
            | Inr False \<Rightarrow>
               (case sendable of
                  0 \<Rightarrow> Inl Broken_Pipe
                | Suc sendable' \<Rightarrow>
                   (case fgets RESPONSE_BUFFER_SIZE receiveStream of
                      None \<Rightarrow> resolve_loop sendable' receiveStream destinations (Suc i) False
                    | Some (mapperResponse, receiveStream') \<Rightarrow>
                       (case strcpy (capacity (destinations ! i))
                               (trim_newline (c_str mapperResponse)) of
                          Inl f \<Rightarrow> Inl f
                        | Inr resolved \<Rightarrow>
                           resolve_loop sendable' receiveStream'
                             (destinations[i := (destinations ! i)\<lparr>content := resolved\<rparr>])
                             (Suc i)
                             (if strcmp resolved '';'' = 0 then False else allResolved)))))
      else Inr (destinations, allResolved))"
  by pat_completeness auto
termination
  by (relation "measure (\<lambda>(sendable, receiveStream, destinations, i, allResolved).
                   length destinations - i)") auto

definition resolve_destinations ::
  "peer \<Rightarrow> buffer list \<Rightarrow> fault + (buffer list \<times> RocError)" where
  "resolve_destinations mapper destinations =
     (case connect_to_port mapper of
        Inl f \<Rightarrow> Inl f
      | Inr None \<Rightarrow> Inr (destinations, ROC_ERROR_CONNECTING_MAPPER)
      | Inr (Some (receiveStream, sendable)) \<Rightarrow>
         (case resolve_loop sendable receiveStream destinations 0 True of
            Inl f \<Rightarrow> Inl f
          | Inr (destinations', allResolved) \<Rightarrow>
             Inr (destinations',
                  if \<not> allResolved then ROC_CANNOT_RESOLVE_PORT else ROC_NORMAL_OPERATION)))"

text \<open>
  The state of the loop of \<open>visit_destinations\<close>: \<open>visitingSuccess\<close>, the array
  \<open>destinationInfo\<close> (\<open>None\<close> is \<open>NULL\<close>), the local buffer \<open>controlResponse\<close>
  (\<open>None\<close> until something is read into it) and, as a trace, the ports handed to
  \<open>connect_to_port\<close> so far.
\<close>

record visit_state =
  visitingSuccess :: bool
  destinationInfo :: "string option list"
  controlResponse :: "string option"
  connections :: "string list"

text \<open>
  The \<open>i\<close>-th destination, reached under the port string \<open>p\<close>, is the peer
  \<open>net i p\<close>. The aircraft ID is sent with one write. The result of \<open>fgets\<close> is not
  tested: at the end of the stream \<open>controlResponse\<close> keeps what it held. \<open>strcpy\<close>
  copies the C string in \<open>controlResponse\<close>.
\<close>

function visit_loop ::
  "(nat \<Rightarrow> string \<Rightarrow> peer) \<Rightarrow> string list \<Rightarrow> nat \<Rightarrow> visit_state \<Rightarrow> fault + visit_state" where
  "visit_loop net destinations i st =
     (if i < length destinations
      then (case connect_to_port (net i (destinations ! i)) of
              Inl f \<Rightarrow> Inl f
            | Inr None \<Rightarrow>
                visit_loop net destinations (Suc i)
                  (st\<lparr>visitingSuccess := False,
                      destinationInfo := (destinationInfo st)[i := None],
                      connections := connections st @ [destinations ! i]\<rparr>)
            | Inr (Some (receiveStream, sendable)) \<Rightarrow>
               (if sendable = 0 then Inl Broken_Pipe
                else
                 (let response = (case fgets RESPONSE_BUFFER_SIZE receiveStream of
                                    None \<Rightarrow> controlResponse st
                                  | Some (line, rest) \<Rightarrow> Some line)
                  in case response of
                       None \<Rightarrow> Inl Uninitialised_Read
                     | Some r \<Rightarrow>
                        (case strcpy MAX_DEST_INFO_LENGTH (c_str r) of
                           Inl f \<Rightarrow> Inl f
                         | Inr info \<Rightarrow>
                            visit_loop net destinations (Suc i)
                              (st\<lparr>destinationInfo :=
                                     (destinationInfo st)[i := Some (trim_newline info)],
                                  controlResponse := response,
                                  connections := connections st @ [destinations ! i]\<rparr>)))))
      else Inr st)"
  by pat_completeness auto
termination
  by (relation "measure (\<lambda>(net, destinations, i, st). length destinations - i)") auto

text \<open>
  \<open>malloc_string_array\<close>: \<open>elementCount\<close> buffers whose content is indeterminate
  (\<open>junk\<close>).
\<close>

definition malloc_string_array :: "nat \<Rightarrow> string \<Rightarrow> string option list" where
  "malloc_string_array elementCount junk = replicate elementCount (Some junk)"

definition visit_destinations ::
  "(nat \<Rightarrow> string \<Rightarrow> peer) \<Rightarrow> string option list \<Rightarrow> string list \<Rightarrow> fault + visit_state" where
  "visit_destinations net destinationInfo' destinations =
     visit_loop net destinations 0
       \<lparr>visitingSuccess = True, destinationInfo = destinationInfo',
        controlResponse = None, connections = []\<rparr>"

definition print_destination_info :: "string option list \<Rightarrow> nat \<Rightarrow> string" where
  "print_destination_info destinationInfo' destinationCount =
     concat (map (\<lambda>i. case destinationInfo' ! i of None \<Rightarrow> [] | Some info \<Rightarrow> info @ [LF])
               [0 ..< destinationCount])"

text \<open>
  The first loop of \<open>main\<close>: each destination is copied into a buffer of
  \<open>string_or_port_size\<close> bytes, and \<open>mapperRequired\<close> is set by any destination that is
  not a port number.
\<close>

fun copy_destinations :: "string list \<Rightarrow> bool \<Rightarrow> fault + (buffer list \<times> bool)" where
  "copy_destinations [] mapperRequired = Inr ([], mapperRequired)"
| "copy_destinations (arg # args) mapperRequired =
     (case strcpy (string_or_port_size arg) arg of
        Inl f \<Rightarrow> Inl f
      | Inr copied \<Rightarrow>
         (case is_unsigned_short arg of
            Inl f \<Rightarrow> Inl f
          | Inr isPort \<Rightarrow>
             (case copy_destinations args (if \<not> isPort then True else mapperRequired) of
                Inl f \<Rightarrow> Inl f
              | Inr (destinations, required) \<Rightarrow>
                 Inr (\<lparr>capacity = string_or_port_size arg, content = copied\<rparr> # destinations,
                      required))))"

text \<open>What a run of the client leaves: its exit status, standard output and connections.\<close>

record roc_result =
  status :: RocError
  stdout :: string
  visited :: "string list"

definition roc_exit :: "RocError \<Rightarrow> roc_result" where
  "roc_exit e = \<lparr>status = e, stdout = [], visited = []\<rparr>"

text \<open>
  \<open>main\<close>, with \<open>argv\<close>, the peer behind the registry's port, the peers behind the
  destinations and the indeterminate content of freshly allocated buffers.
\<close>

definition main ::
  "string list \<Rightarrow> peer \<Rightarrow> (nat \<Rightarrow> string \<Rightarrow> peer) \<Rightarrow> string \<Rightarrow> fault + roc_result" where
  "main argv mapper net junk =
     (if length argv < 3 then Inr (roc_exit ROC_INVALID_ARG_COUNT)
      else
       (let mapperPort = argv ! 2;
            mapperSpecified = (strcmp mapperPort ''-'' \<noteq> 0);
            destinationCount = length argv - 3
        in case copy_destinations (drop 3 argv) False of
             Inl f \<Rightarrow> Inl f
           | Inr (destinations, mapperRequired) \<Rightarrow>
              (case (if mapperSpecified then is_unsigned_short mapperPort else Inr True) of
                 Inl f \<Rightarrow> Inl f
               | Inr validPort \<Rightarrow>
                  if mapperSpecified \<and> \<not> validPort then Inr (roc_exit ROC_INVALID_MAPPER_PORT)
                  else if \<not> mapperSpecified \<and> mapperRequired
                  then Inr (roc_exit ROC_REQUIRE_MAPPER)
                  else
                   (case (if mapperRequired then resolve_destinations mapper destinations
                          else Inr (destinations, ROC_NORMAL_OPERATION)) of
                      Inl f \<Rightarrow> Inl f
                    | Inr (destinations', status') \<Rightarrow>
                       if status' \<noteq> ROC_NORMAL_OPERATION then Inr (roc_exit status')
                       else
                        (case visit_destinations net
                                (malloc_string_array destinationCount junk)
                                (map content destinations') of
                           Inl f \<Rightarrow> Inl f
                         | Inr st \<Rightarrow>
                            Inr \<lparr>status = (if visitingSuccess st then ROC_NORMAL_OPERATION
                                           else ROC_FAILED_TO_CONNECT),
                                 stdout = print_destination_info (destinationInfo st)
                                            destinationCount,
                                 visited = connections st\<rparr>)))))"

section \<open>Views of the state and the words of the specification\<close>

text \<open>The registry table and the visit log: the slots of the arrays written so far.\<close>

definition registry_table :: "Mapping \<Rightarrow> MapEntry list" where
  "registry_table mapping = take (entryCount mapping) (entries mapping)"

definition visit_log :: "Visitors \<Rightarrow> VisitorEntry list" where
  "visit_log visitors = take (visitorCount visitors) (visitorEntries visitors)"

text \<open>The table after one more entry has been written at index \<open>entryCount\<close>.\<close>

definition append_entry :: "Mapping \<Rightarrow> MapEntry \<Rightarrow> Mapping" where
  "append_entry m e = m\<lparr>entries := (entries m)[entryCount m := e], entryCount := entryCount m + 1\<rparr>"

definition append_visitor :: "Visitors \<Rightarrow> VisitorEntry \<Rightarrow> Visitors" where
  "append_visitor v e =
     v\<lparr>visitorEntries := (visitorEntries v)[visitorCount v := e], visitorCount := visitorCount v + 1\<rparr>"

text \<open>
  The grammar of an add line in the words of the specification: a name that is not empty
  and holds no colon, carriage return or newline, and an address that is a decimal number in
  (0, 65535].
\<close>

definition name_ok :: "string \<Rightarrow> bool" where
  "name_ok n \<longleftrightarrow> n \<noteq> [] \<and> CHR '':'' \<notin> set n \<and> CR \<notin> set n \<and> LF \<notin> set n"

definition decimal :: "string \<Rightarrow> int" where
  "decimal s = foldl (\<lambda>v c. 10 * v + digit_value c) 0 s"

definition valid_port :: "string \<Rightarrow> bool" where
  "valid_port a \<longleftrightarrow> a \<noteq> [] \<and> list_all isdigit a \<and> 0 < decimal a \<and> decimal a \<le> 65535"

text \<open>The invariants of the two sorting loops, over the first \<open>n\<close> slots.\<close>

definition prefix_final :: "('a \<Rightarrow> string) \<Rightarrow> nat \<Rightarrow> nat \<Rightarrow> 'a list \<Rightarrow> bool" where
  "prefix_final key n i es \<longleftrightarrow> (\<forall>a<i. \<forall>b<n. a < b \<longrightarrow> key (es ! a) \<le> key (es ! b))"

definition slot_least :: "('a \<Rightarrow> string) \<Rightarrow> nat \<Rightarrow> nat \<Rightarrow> 'a list \<Rightarrow> bool" where
  "slot_least key i j es \<longleftrightarrow> (\<forall>b. i < b \<and> b < j \<longrightarrow> key (es ! i) \<le> key (es ! b))"

text \<open>
  The malformed add lines the specification lists: no colon or more than one, an empty name
  (a colon right after the \<open>!\<close>), a colon at the end, an embedded carriage return.
\<close>

definition add_line_malformed :: "string \<Rightarrow> bool" where
  "add_line_malformed s \<longleftrightarrow>
     count_list s CHR '':'' \<noteq> 1 \<or> takeWhile (\<lambda>c. c \<noteq> CHR '':'') (tl s) = []
     \<or> last s = CHR '':'' \<or> CR \<in> set s"

text \<open>
  A destination needs resolution when it is not a port number. \<open>replies_for\<close> pairs each
  name sent to the registry, in order, with the line \<open>fgets\<close> then reads back, as the
  C string it holds with its newline trimmed, or with \<open>None\<close> when the stream has ended.
\<close>

definition needs_resolution :: "string \<Rightarrow> bool" where
  "needs_resolution d \<longleftrightarrow> is_unsigned_short d = Inr False"

fun replies_for :: "string \<Rightarrow> string list \<Rightarrow> (string \<times> string option) list" where
  "replies_for stream [] = []"
| "replies_for stream (name # names) =
     (case fgets RESPONSE_BUFFER_SIZE stream of
        None \<Rightarrow> (name, None) # replies_for stream names
      | Some (reply, rest) \<Rightarrow>
          (name, Some (trim_newline (c_str reply))) # replies_for rest names)"

definition unresolved :: "string \<times> string option \<Rightarrow> bool" where
  "unresolved p \<longleftrightarrow> snd p = None \<or> snd p = Some '';''"

text \<open>
  A network given by a table from port to the bytes the peer behind it sends, each peer
  taking the one write of a visit; a port that is not in the table refuses the connection.
\<close>

definition net_of :: "(string \<times> string) list \<Rightarrow> nat \<Rightarrow> string \<Rightarrow> peer" where
  "net_of table i port =
     (case map_of table port of None \<Rightarrow> Refused | Some bytes \<Rightarrow> Connected bytes 1)"

text \<open>
  A peer that can be visited: the connection is refused, or it is made, takes the write of
  the aircraft ID and delivers at least one byte.
\<close>

definition visitable :: "peer \<Rightarrow> bool" where
  "visitable p \<longleftrightarrow>
     (case p of
        Refused \<Rightarrow> True
      | Connected bytes sendable \<Rightarrow> bytes \<noteq> [] \<and> 0 < sendable
      | _ \<Rightarrow> False)"

text \<open>
  What one visit records for its slot: nothing when the connection is refused, else the
  first line read from the peer, as the C string it holds with its newline trimmed.
\<close>

definition visit_reply :: "peer \<Rightarrow> string option" where
  "visit_reply p =
     (case p of
        Connected bytes sendable \<Rightarrow>
          (case fgets RESPONSE_BUFFER_SIZE bytes of
             None \<Rightarrow> None
           | Some (line, rest) \<Rightarrow> Some (trim_newline (c_str line)))
      | _ \<Rightarrow> None)"

definition info_line :: "string option \<Rightarrow> string" where
  "info_line info = (case info of None \<Rightarrow> [] | Some s \<Rightarrow> s @ [LF])"

section \<open>Properties of the string helpers and of the sorting loops\<close>

lemma strcmp_eq_0_iff: "strcmp a b = 0 \<longleftrightarrow> a = b"
  by (induction a b rule: strcmp.induct) auto

lemma strcmp_pos_iff: "strcmp a b > 0 \<longleftrightarrow> b < a"
  by (induction a b rule: strcmp.induct) auto

lemma strcmp_neg_iff: "strcmp a b < 0 \<longleftrightarrow> a < b"
  by (induction a b rule: strcmp.induct) auto

declare sort_inner_loop.simps [simp del] sort_outer_loop.simps [simp del]

lemma length_sort_inner_loop: "length (sort_inner_loop key n i j es) = length es"
proof (induction key n i j es rule: sort_inner_loop.induct)
  case (1 key n i j es)
  show ?case
  proof (cases "j < n")
    case True
    with 1 show ?thesis by (subst sort_inner_loop.simps) (simp add: Let_def)
  next
    case False
    then show ?thesis by (subst sort_inner_loop.simps) simp
  qed
qed

lemma length_sort_outer_loop: "length (sort_outer_loop key n i es) = length es"
proof (induction key n i es rule: sort_outer_loop.induct)
  case (1 key n i es)
  show ?case
  proof (cases "i < n")
    case True
    with 1 show ?thesis
      by (subst sort_outer_loop.simps) (simp add: length_sort_inner_loop)
  next
    case False
    then show ?thesis by (subst sort_outer_loop.simps) simp
  qed
qed

lemma swap_keeps_invariants:
  assumes "i < j" "j < n" "n \<le> length es"
    and P: "prefix_final key n i es" and Q: "slot_least key i j es"
    and lt: "key (es ! j) < key (es ! i)"
  shows "prefix_final key n i ((es[i := es ! j])[j := es ! i])"
    and "slot_least key i (Suc j) ((es[i := es ! j])[j := es ! i])"
proof -
  let ?es = "(es[i := es ! j])[j := es ! i]"
  have nth: "\<And>k. k < length es \<Longrightarrow>
     ?es ! k = (if k = j then es ! i else if k = i then es ! j else es ! k)"
    using assms(1-3) by (auto simp: nth_list_update)
  show "prefix_final key n i ?es"
    unfolding prefix_final_def
  proof (intro allI impI)
    fix a b assume ab: "a < i" "b < n" "a < b"
    have "key (es ! a) \<le> key (es ! b)" "key (es ! a) \<le> key (es ! i)" "key (es ! a) \<le> key (es ! j)"
      using P ab assms(1-3) unfolding prefix_final_def by auto
    then show "key (?es ! a) \<le> key (?es ! b)"
      using ab assms(1-3) by (simp add: nth)
  qed
  show "slot_least key i (Suc j) ?es"
    unfolding slot_least_def
  proof (intro allI impI)
    fix b assume b: "i < b \<and> b < Suc j"
    show "key (?es ! i) \<le> key (?es ! b)"
    proof (cases "b = j")
      case True
      then show ?thesis using lt assms(1-3) by (simp add: nth)
    next
      case False
      then have "key (es ! i) \<le> key (es ! b)" using Q b unfolding slot_least_def by auto
      then show ?thesis using lt False b assms(1-3) by (simp add: nth)
    qed
  qed
qed

lemma sort_inner_loop_invariants:
  "i < j \<Longrightarrow> j \<le> n \<Longrightarrow> n \<le> length es \<Longrightarrow> prefix_final key n i es \<Longrightarrow> slot_least key i j es
   \<Longrightarrow> prefix_final key n i (sort_inner_loop key n i j es)
       \<and> slot_least key i n (sort_inner_loop key n i j es)"
proof (induction key n i j es rule: sort_inner_loop.induct)
  case (1 key n i j es)
  show ?case
  proof (cases "j < n")
    case False
    with 1(3-) show ?thesis by (subst (1 2) sort_inner_loop.simps) simp
  next
    case jn: True
    show ?thesis
    proof (cases "strcmp (key (es ! i)) (key (es ! j)) > 0")
      case True
      let ?es = "(es[i := es ! j])[j := es ! i]"
      have lt: "key (es ! j) < key (es ! i)" using True by (simp add: strcmp_pos_iff)
      have "prefix_final key n i ?es" "slot_least key i (Suc j) ?es"
        using swap_keeps_invariants[OF "1.prems"(1) jn "1.prems"(3,4,5) lt] by auto
      then have "prefix_final key n i (sort_inner_loop key n i (Suc j) ?es)
           \<and> slot_least key i n (sort_inner_loop key n i (Suc j) ?es)"
        using "1.IH"[OF jn] True jn "1.prems" by (simp add: Let_def)
      then show ?thesis using jn True by (subst (1 2) sort_inner_loop.simps) (simp add: Let_def)
    next
      case False
      then have le: "key (es ! i) \<le> key (es ! j)" by (simp add: strcmp_pos_iff)
      have "slot_least key i (Suc j) es"
        using "1.prems"(5) le unfolding slot_least_def by (auto simp: less_Suc_eq)
      then have "prefix_final key n i (sort_inner_loop key n i (Suc j) es)
           \<and> slot_least key i n (sort_inner_loop key n i (Suc j) es)"
        using "1.IH"[OF jn] False jn "1.prems" by simp
      then show ?thesis using jn False by (subst (1 2) sort_inner_loop.simps) simp
    qed
  qed
qed

lemma prefix_final_Suc:
  "prefix_final key n i es \<Longrightarrow> slot_least key i n es \<Longrightarrow> prefix_final key n (Suc i) es"
  unfolding prefix_final_def slot_least_def by (auto simp: less_Suc_eq)

lemma sort_outer_loop_final:
  "i \<le> n \<Longrightarrow> n \<le> length es \<Longrightarrow> prefix_final key n i es
   \<Longrightarrow> prefix_final key n n (sort_outer_loop key n i es)"
proof (induction key n i es rule: sort_outer_loop.induct)
  case (1 key n i es)
  show ?case
  proof (cases "i < n")
    case False
    with 1(2-) show ?thesis by (subst sort_outer_loop.simps) simp
  next
    case True
    let ?es = "sort_inner_loop key n i (Suc i) es"
    have "slot_least key i (Suc i) es" unfolding slot_least_def by auto
    then have "prefix_final key n i ?es \<and> slot_least key i n ?es"
      using sort_inner_loop_invariants[of i "Suc i" n es key] True "1.prems" by simp
    then have "prefix_final key n (Suc i) ?es" by (simp add: prefix_final_Suc)
    then have "prefix_final key n n (sort_outer_loop key n (Suc i) ?es)"
      using "1.IH"[OF True] True "1.prems" by (simp add: length_sort_inner_loop)
    then show ?thesis using True by (subst sort_outer_loop.simps) simp
  qed
qed

lemma sorted_sort_outer_loop:
  assumes "n \<le> length es"
  shows "sorted (map key (take n (sort_outer_loop key n 0 es)))"
proof -
  have "prefix_final key n 0 es" unfolding prefix_final_def by simp
  then have "prefix_final key n n (sort_outer_loop key n 0 es)"
    using sort_outer_loop_final[of 0 n es key] assms by simp
  then show ?thesis
    using assms unfolding prefix_final_def
    by (auto simp: sorted_iff_nth_mono_less length_sort_outer_loop)
qed

lemma mset_take_sort_inner_loop:
  "i < n \<Longrightarrow> n \<le> length es \<Longrightarrow>
   mset (take n (sort_inner_loop key n i j es)) = mset (take n es)
   \<and> drop n (sort_inner_loop key n i j es) = drop n es"
proof (induction key n i j es rule: sort_inner_loop.induct)
  case (1 key n i j es)
  show ?case
  proof (cases "j < n")
    case False
    then show ?thesis by (subst (1 2) sort_inner_loop.simps) simp
  next
    case jn: True
    let ?es = "(es[i := es ! j])[j := es ! i]"
    have swap: "mset (take n ?es) = mset (take n es)"
    proof -
      have "take n ?es = ((take n es)[i := take n es ! j])[j := take n es ! i]"
        using jn "1.prems" by (simp add: take_update_swap)
      moreover have "mset (((take n es)[i := take n es ! j])[j := take n es ! i]) = mset (take n es)"
        using jn "1.prems" by (intro mset_swap) simp_all
      ultimately show ?thesis by simp
    qed
    have dropeq: "drop n ?es = drop n es"
      using jn "1.prems" by simp
    show ?thesis
    proof (cases "strcmp (key (es ! i)) (key (es ! j)) > 0")
      case True
      then have "mset (take n (sort_inner_loop key n i (Suc j) ?es)) = mset (take n ?es)
         \<and> drop n (sort_inner_loop key n i (Suc j) ?es) = drop n ?es"
        using "1.IH"[OF jn] "1.prems" by (simp add: Let_def)
      then show ?thesis using jn True swap dropeq
        by (subst (1 2) sort_inner_loop.simps) (simp add: Let_def)
    next
      case False
      then have "mset (take n (sort_inner_loop key n i (Suc j) es)) = mset (take n es)
         \<and> drop n (sort_inner_loop key n i (Suc j) es) = drop n es"
        using "1.IH"[OF jn] "1.prems" by simp
      then show ?thesis using jn False
        by (subst (1 2) sort_inner_loop.simps) simp
    qed
  qed
qed

lemma mset_take_sort_outer_loop:
  "n \<le> length es \<Longrightarrow>
   mset (take n (sort_outer_loop key n i es)) = mset (take n es)
   \<and> drop n (sort_outer_loop key n i es) = drop n es"
proof (induction key n i es rule: sort_outer_loop.induct)
  case (1 key n i es)
  show ?case
  proof (cases "i < n")
    case False
    then show ?thesis by (subst (1 2) sort_outer_loop.simps) simp
  next
    case True
    let ?es = "sort_inner_loop key n i (Suc i) es"
    have a: "mset (take n ?es) = mset (take n es) \<and> drop n ?es = drop n es"
      using mset_take_sort_inner_loop[of i n es key "Suc i"] True "1.prems" by simp
    have "mset (take n (sort_outer_loop key n (Suc i) ?es)) = mset (take n ?es)
        \<and> drop n (sort_outer_loop key n (Suc i) ?es) = drop n ?es"
      using "1.IH"[OF True] "1.prems" by (simp add: length_sort_inner_loop)
    then show ?thesis using True a by (subst (1 2) sort_outer_loop.simps) simp
  qed
qed

text \<open>On sorted input the loops exchange nothing.\<close>

lemma sort_inner_loop_sorted_id:
  "i < j \<Longrightarrow> n \<le> length es \<Longrightarrow> (\<forall>b. i < b \<and> b < n \<longrightarrow> key (es ! i) \<le> key (es ! b))
   \<Longrightarrow> sort_inner_loop key n i j es = es"
proof (induction key n i j es rule: sort_inner_loop.induct)
  case (1 key n i j es)
  show ?case
  proof (cases "j < n")
    case False
    then show ?thesis by (subst sort_inner_loop.simps) simp
  next
    case True
    then have "key (es ! i) \<le> key (es ! j)" using "1.prems" by auto
    then have no: "\<not> strcmp (key (es ! i)) (key (es ! j)) > 0" by (simp add: strcmp_pos_iff)
    then have "sort_inner_loop key n i (Suc j) es = es"
      using "1.IH"[OF True] "1.prems" by simp
    then show ?thesis using True no by (subst sort_inner_loop.simps) simp
  qed
qed

lemma sort_outer_loop_sorted_id:
  "n \<le> length es \<Longrightarrow> prefix_final key n n es \<Longrightarrow> sort_outer_loop key n i es = es"
proof (induction key n i es rule: sort_outer_loop.induct)
  case (1 key n i es)
  show ?case
  proof (cases "i < n")
    case False
    then show ?thesis by (subst sort_outer_loop.simps) simp
  next
    case True
    have "\<forall>b. i < b \<and> b < n \<longrightarrow> key (es ! i) \<le> key (es ! b)"
      using "1.prems"(2) True unfolding prefix_final_def by auto
    then have inner: "sort_inner_loop key n i (Suc i) es = es"
      using sort_inner_loop_sorted_id[of i "Suc i" n es key] "1.prems" by simp
    then have "sort_outer_loop key n (Suc i) es = es"
      using "1.IH"[OF True] "1.prems" by simp
    then show ?thesis using True inner by (subst sort_outer_loop.simps) simp
  qed
qed

lemma sort_outer_loop_idem:
  assumes "n \<le> length es"
  shows "sort_outer_loop key n 0 (sort_outer_loop key n 0 es) = sort_outer_loop key n 0 es"
proof -
  have "prefix_final key n 0 es" unfolding prefix_final_def by simp
  then have "prefix_final key n n (sort_outer_loop key n 0 es)"
    using sort_outer_loop_final[of 0 n es key] assms by simp
  then show ?thesis
    using sort_outer_loop_sorted_id[of n "sort_outer_loop key n 0 es" key 0] assms
    by (simp add: length_sort_outer_loop)
qed

lemma trim_newline_takeWhile: "trim_newline s = takeWhile (\<lambda>c. c \<noteq> LF) s"
  by (induction s) auto

lemma trim_newline_line: "LF \<notin> set s \<Longrightarrow> trim_newline (s @ [LF]) = s"
  by (induction s) auto

lemma trim_newline_id: "LF \<notin> set s \<Longrightarrow> trim_newline s = s"
  by (induction s) auto

lemma LF_notin_trim_newline: "LF \<notin> set (trim_newline s)"
  by (induction s) auto

lemma c_str_id: "NUL \<notin> set s \<Longrightarrow> c_str s = s"
  by (auto simp: c_str_def)

lemma NUL_notin_c_str: "NUL \<notin> set (c_str s)"
  unfolding c_str_def by (auto dest: set_takeWhileD)

lemma c_str_idem: "c_str (c_str s) = c_str s"
  by (rule c_str_id[OF NUL_notin_c_str])

lemma c_str_prefix: "\<exists>rest. buffer = c_str buffer @ rest"
  unfolding c_str_def by (metis takeWhile_dropWhile_id)

lemma length_c_str: "length (c_str s) \<le> length s"
  unfolding c_str_def by (rule length_takeWhile_le)

lemma NUL_notin_trim_newline_c_str: "NUL \<notin> set (trim_newline (c_str s))"
  using NUL_notin_c_str[of s] unfolding trim_newline_takeWhile by (auto dest: set_takeWhileD)

lemma c_str_trim_newline_c_str: "c_str (trim_newline (c_str s) @ [LF]) = trim_newline (c_str s) @ [LF]"
  using NUL_notin_trim_newline_c_str[of s] by (intro c_str_id) simp

lemma trim_newline_idem: "trim_newline (trim_newline s @ [LF]) = trim_newline s"
  by (rule trim_newline_line[OF LF_notin_trim_newline])

lemma count_occurrences_single: "count_occurrences s [c] = count_list s c"
  by (induction s) auto

lemma count_occurrences_CRLF: "count_occurrences s [CR, LF] = 0 \<longleftrightarrow> CR \<notin> set s \<and> LF \<notin> set s"
  by (induction s) auto

lemma is_numeric_iff: "is_numeric s \<longleftrightarrow> list_all isdigit s"
  by (induction s) auto

lemma atoi_digits_foldl:
  "list_all isdigit s \<Longrightarrow> atoi_digits acc s = foldl (\<lambda>v c. 10 * v + digit_value c) acc s"
  by (induction s arbitrary: acc) auto

lemma isdigit_value: "isdigit c \<Longrightarrow> 0 \<le> digit_value c \<and> digit_value c \<le> 9"
  unfolding isdigit_def digit_value_def less_eq_char_def by simp

lemma foldl_digits_bounds:
  "list_all isdigit s \<Longrightarrow> 0 \<le> acc \<Longrightarrow>
   0 \<le> foldl (\<lambda>v c. 10 * v + digit_value c) acc s
   \<and> foldl (\<lambda>v c. 10 * v + digit_value c) acc s < (acc + 1) * 10 ^ length s"
proof (induction s arbitrary: acc)
  case Nil
  then show ?case by simp
next
  case (Cons c s)
  let ?F = "foldl (\<lambda>v c. 10 * v + digit_value c) (10 * acc + digit_value c) s"
  have d: "0 \<le> digit_value c" "digit_value c \<le> 9" using isdigit_value Cons.prems by auto
  have "0 \<le> 10 * acc + digit_value c" using d Cons.prems by simp
  from Cons.IH[OF _ this] Cons.prems
  have ih: "0 \<le> ?F" "?F < (10 * acc + digit_value c + 1) * 10 ^ length s" by auto
  have "(10 * acc + digit_value c + 1) * 10 ^ length s \<le> (10 * (acc + 1)) * 10 ^ length s"
    using d by (intro mult_right_mono) auto
  also have "\<dots> = (acc + 1) * 10 ^ Suc (length s)" by simp
  finally have "(10 * acc + digit_value c + 1) * 10 ^ length s \<le> (acc + 1) * 10 ^ Suc (length s)" .
  with ih(2) have "?F < (acc + 1) * 10 ^ Suc (length s)" by (rule less_le_trans)
  moreover have "length (c # s) = Suc (length s)" by simp
  ultimately have "?F < (acc + 1) * 10 ^ length (c # s)" by (simp only:)
  moreover have "foldl (\<lambda>v c. 10 * v + digit_value c) acc (c # s) = ?F" by simp
  ultimately show ?case using ih(1) by (simp only:)
qed

lemma decimal_bounds:
  "list_all isdigit s \<Longrightarrow> 0 \<le> decimal s \<and> decimal s < 10 ^ length s"
  using foldl_digits_bounds[of s 0] by (simp add: decimal_def)

lemma atoi_digits_string:
  assumes "list_all isdigit s"
  shows "atoi s = (if decimal s \<le> INT_MAX then Inr (decimal s) else Inl Atoi_Overflow)"
proof (cases s)
  case Nil
  then show ?thesis by (simp add: atoi_def decimal_def INT_MIN_def INT_MAX_def)
next
  case (Cons c cs)
  then have c: "isdigit c" using assms by simp
  then have ns: "\<not> isspace c" "c \<noteq> CHR ''-''" "c \<noteq> CHR ''+''"
    unfolding isdigit_def isspace_def less_eq_char_def by auto
  have "0 \<le> decimal s" using decimal_bounds assms by simp
  then have "INT_MIN \<le> decimal s" by (simp add: INT_MIN_def)
  then show ?thesis
    using Cons ns assms atoi_digits_foldl[OF assms, of 0]
    by (simp add: atoi_def decimal_def Let_def)
qed

lemma is_unsigned_short_short:
  assumes "length a < PORT_NUMBER_LENGTH"
  shows "is_unsigned_short a = Inr (valid_port a)"
proof (cases "list_all isdigit a")
  case False
  then show ?thesis by (simp add: is_unsigned_short_def is_numeric_iff valid_port_def)
next
  case True
  have "decimal a < 10 ^ length a" using decimal_bounds True by simp
  also have "\<dots> \<le> (10::int) ^ 5"
    using assms by (intro power_increasing) (simp_all add: PORT_NUMBER_LENGTH_def)
  finally have "decimal a \<le> INT_MAX" by (simp add: INT_MAX_def)
  moreover have "a = [] \<Longrightarrow> decimal a = 0" by (simp add: decimal_def)
  ultimately show ?thesis
    using True by (auto simp: is_unsigned_short_def is_numeric_iff valid_port_def
        atoi_digits_string USHRT_MAX_def)
qed

lemma strtok_first:
  "n \<noteq> [] \<Longrightarrow> d \<notin> set n \<Longrightarrow> strtok (n @ d # a) [d] = (Some n, a)"
proof -
  assume n: "n \<noteq> []" "d \<notin> set n"
  then have "hd n \<noteq> d" by (cases n) auto
  then have dw: "dropWhile (\<lambda>c. c \<in> set [d]) (n @ d # a) = n @ d # a"
    using n by (cases n) auto
  have all: "\<forall>x\<in>set n. x \<noteq> d" using n by auto
  have "takeWhile (\<lambda>c. c \<notin> set [d]) (n @ d # a) = n"
    using all by (simp add: takeWhile_tail)
  moreover have "dropWhile (\<lambda>c. c \<notin> set [d]) (n @ d # a) = d # a"
    using all by (simp add: dropWhile_append)
  ultimately show ?thesis using dw n by (simp add: strtok_def Let_def)
qed

lemma strtok_last:
  "a \<noteq> [] \<Longrightarrow> d \<notin> set a \<Longrightarrow> strtok a [d] = (Some a, [])"
proof -
  assume a: "a \<noteq> []" "d \<notin> set a"
  have all: "\<forall>x\<in>set a. x \<noteq> d" using a by auto
  have 1: "dropWhile (\<lambda>c. c = d) a = a" using a by (cases a) auto
  have 2: "takeWhile (\<lambda>c. c \<noteq> d) a = a" using all by simp
  have 3: "dropWhile (\<lambda>c. c \<noteq> d) a = []" using all by simp
  show ?thesis using a by (simp add: strtok_def Let_def 1 2 3)
qed

subsection \<open>Lookup, lexing and the add operation\<close>

declare name_index_from.simps [simp del]

lemma name_index_from_find:
  "entryCount m \<le> length (entries m) \<Longrightarrow> i \<le> entryCount m \<Longrightarrow>
   (case find (\<lambda>e. airportName e = name) (drop i (registry_table m)) of
      None \<Rightarrow> name_index_from m name i = ENTRY_NOT_FOUND
    | Some e \<Rightarrow> \<exists>k. i \<le> k \<and> k < entryCount m \<and> name_index_from m name i = int k
                 \<and> entries m ! k = e)"
proof (induction m name i rule: name_index_from.induct)
  case (1 m name i)
  show ?case
  proof (cases "i < entryCount m")
    case False
    then show ?thesis
      by (subst name_index_from.simps) (simp add: registry_table_def)
  next
    case True
    have dr: "drop i (registry_table m) = entries m ! i # drop (Suc i) (registry_table m)"
      using True "1.prems" Cons_nth_drop_Suc[of i "registry_table m"]
      by (simp add: registry_table_def)
    show ?thesis
    proof (cases "strcmp name (airportName (entries m ! i)) = 0")
      case eq: True
      then have "airportName (entries m ! i) = name" by (simp add: strcmp_eq_0_iff)
      then show ?thesis using True eq dr
        by (subst name_index_from.simps) auto
    next
      case neq: False
      then have ne: "airportName (entries m ! i) \<noteq> name" by (auto simp: strcmp_eq_0_iff)
      have ih: "case find (\<lambda>e. airportName e = name) (drop (Suc i) (registry_table m)) of
          None \<Rightarrow> name_index_from m name (Suc i) = ENTRY_NOT_FOUND
        | Some e \<Rightarrow> \<exists>k. Suc i \<le> k \<and> k < entryCount m \<and> name_index_from m name (Suc i) = int k
                 \<and> entries m ! k = e"
        using "1.IH"[OF True neq] True "1.prems" by simp
      have step: "name_index_from m name i = name_index_from m name (Suc i)"
        using True neq by (subst name_index_from.simps) simp
      show ?thesis using ih ne dr step
        by (auto split: option.splits intro: Suc_leD)
    qed
  qed
qed

lemma print_queried_mapping_find:
  assumes "entryCount m \<le> length (entries m)"
  shows "print_queried_mapping m (c # name) =
     (case find (\<lambda>e. airportName e = name) (registry_table m) of
        None \<Rightarrow> [CHR '';'', LF]
      | Some e \<Rightarrow> portNumber e @ [LF])"
  using name_index_from_find[OF assms, of 0 name]
  by (auto simp: print_queried_mapping_def name_index_in_mapping_def ENTRY_NOT_FOUND_def
      Let_def split: option.splits)

lemma name_index_absent_iff:
  assumes "entryCount m \<le> length (entries m)"
  shows "name_index_in_mapping m name = ENTRY_NOT_FOUND
     \<longleftrightarrow> name \<notin> airportName ` set (registry_table m)"
  using name_index_from_find[OF assms, of 0 name]
  by (auto simp: name_index_in_mapping_def ENTRY_NOT_FOUND_def find_None_iff
      split: option.splits dest: find_Some_iff[THEN iffD1])

lemma command_lexer_query:
  "LF \<notin> set name \<Longrightarrow> command_lexer (CHR ''?'' # name @ [LF]) = (CHR ''?'' # name, QUERY_MAPPING)"
  by (simp add: command_lexer_def trim_newline_line c_at_def Let_def split: list.splits)

lemma command_lexer_list: "command_lexer (''@'' @ [LF]) = (''@'', LIST_MAPPINGS)"
  by (simp add: command_lexer_def)

lemma count_list_0_iff: "count_list s c = 0 \<longleftrightarrow> c \<notin> set s"
  by (induction s) auto

lemma command_lexer_add:
  assumes "LF \<notin> set n" "LF \<notin> set a"
  shows "command_lexer (CHR ''!'' # n @ CHR '':'' # a @ [LF]) =
     (CHR ''!'' # n @ CHR '':'' # a,
      if n \<noteq> [] \<and> a \<noteq> [] \<and> CHR '':'' \<notin> set n \<and> CHR '':'' \<notin> set a
         \<and> CR \<notin> set n \<and> CR \<notin> set a
      then ADD_MAPPING else UNKNOWN_COMMAND)"
proof -
  let ?s = "CHR ''!'' # n @ CHR '':'' # a"
  have trim: "trim_newline (?s @ [LF]) = ?s"
    using assms by (intro trim_newline_line) auto
  have cnt: "count_occurrences ?s '':'' = 1 \<longleftrightarrow> CHR '':'' \<notin> set n \<and> CHR '':'' \<notin> set a"
    by (simp add: count_occurrences_single count_list_0_iff)
  have crlf: "count_occurrences ?s [CR, LF] = 0 \<longleftrightarrow> CR \<notin> set n \<and> CR \<notin> set a"
    using assms by (auto simp: count_occurrences_CRLF)
  have at1: "c_at ?s 1 \<noteq> CHR '':'' \<longleftrightarrow> n \<noteq> [] \<and> hd n \<noteq> CHR '':''"
    by (cases n) (simp_all add: c_at_def)
  have lst: "c_at ?s (length ?s - 1) \<noteq> CHR '':'' \<longleftrightarrow> a \<noteq> [] \<and> last a \<noteq> CHR '':''"
    by (cases a rule: rev_cases) (simp_all add: c_at_def nth_append nth_Cons')
  have len: "n \<noteq> [] \<Longrightarrow> a \<noteq> [] \<Longrightarrow> length ?s > 3"
    by (cases n; cases a) simp_all
  have hdn: "n \<noteq> [] \<Longrightarrow> CHR '':'' \<notin> set n \<Longrightarrow> hd n \<noteq> CHR '':''" by (cases n) auto
  have lsa: "a \<noteq> [] \<Longrightarrow> CHR '':'' \<notin> set a \<Longrightarrow> last a \<noteq> CHR '':''"
    by (cases a rule: rev_cases) auto
  have "command_lexer (?s @ [LF]) = (?s,
      if count_occurrences ?s '':'' = 1 \<and> length ?s > 3 \<and> c_at ?s 1 \<noteq> CHR '':''
         \<and> c_at ?s (length ?s - 1) \<noteq> CHR '':'' \<and> count_occurrences ?s [CR, LF] = 0
      then ADD_MAPPING else UNKNOWN_COMMAND)"
    unfolding command_lexer_def trim Let_def by (simp add: c_at_def)
  also have "\<dots> = (?s, if n \<noteq> [] \<and> a \<noteq> [] \<and> CHR '':'' \<notin> set n \<and> CHR '':'' \<notin> set a
         \<and> CR \<notin> set n \<and> CR \<notin> set a then ADD_MAPPING else UNKNOWN_COMMAND)"
    unfolding cnt crlf at1 lst using len hdn lsa by auto
  finally show ?thesis by simp
qed

lemma add_map_entry_parts:
  assumes "n \<noteq> []" "CHR '':'' \<notin> set n" "a \<noteq> []" "CHR '':'' \<notin> set a"
    and "entryCount m \<le> length (entries m)"
  shows "add_map_entry m (CHR ''!'' # n @ CHR '':'' # a) =
     (case is_unsigned_short a of
        Inl f \<Rightarrow> Inl f
      | Inr False \<Rightarrow> Inr m
      | Inr True \<Rightarrow>
          if \<not> length n < MAX_AIRPORT_ID_LENGTH \<or> \<not> length a < PORT_NUMBER_LENGTH
          then Inl Buffer_Overflow
          else if n \<in> airportName ` set (registry_table m) then Inr m
          else if entryCount m < length (entries m)
          then Inr (m\<lparr>entries := (entries m)[entryCount m := \<lparr>airportName = n, portNumber = a\<rparr>],
                      entryCount := entryCount m + 1\<rparr>)
          else Inl Index_Out_Of_Bounds)"
proof -
  have t1: "strtok (n @ CHR '':'' # a) '':'' = (Some n, a)"
    using assms by (intro strtok_first) auto
  have t2: "strtok a '':'' = (Some a, [])"
    using assms by (intro strtok_last) auto
  show ?thesis
    unfolding add_map_entry_def
    by (simp add: t1 t2 strcpy_def Let_def name_index_absent_iff[OF assms(5)]
        split: sum.splits bool.splits)
qed

lemma handle_command_text:
  "handle_command m line = handle_command m (trim_newline (c_str line) @ [LF])"
  by (simp add: handle_command_def command_lexer_def c_str_trim_newline_c_str trim_newline_idem)

lemma handle_command_unfold:
  assumes "NUL \<notin> set line"
  shows "handle_command m line =
     (let (message, commandType) = command_lexer line
      in case commandType of
           LIST_MAPPINGS \<Rightarrow> Inr (print_mappings m)
         | QUERY_MAPPING \<Rightarrow> Inr (m, print_queried_mapping m message)
         | ADD_MAPPING \<Rightarrow>
            (case add_map_entry m message of
               Inl f \<Rightarrow> Inl f
             | Inr mapping' \<Rightarrow> Inr (mapping', []))
         | UNKNOWN_COMMAND \<Rightarrow> Inr (m, []))"
  by (simp add: handle_command_def c_str_id[OF assms])

lemma handle_command_add_line:
  assumes "LF \<notin> set n" "LF \<notin> set a"
    and "length n < MAX_AIRPORT_ID_LENGTH" "length a < PORT_NUMBER_LENGTH"
    and "entryCount m < length (entries m)"
    and nul: "NUL \<notin> set (CHR ''!'' # n @ CHR '':'' # a @ [LF])"
  shows "handle_command m (CHR ''!'' # n @ CHR '':'' # a @ [LF]) =
     Inr (if name_ok n \<and> valid_port a \<and> n \<notin> airportName ` set (registry_table m)
          then m\<lparr>entries := (entries m)[entryCount m := \<lparr>airportName = n, portNumber = a\<rparr>],
                 entryCount := entryCount m + 1\<rparr>
          else m, [])"
proof (cases "n \<noteq> [] \<and> a \<noteq> [] \<and> CHR '':'' \<notin> set n \<and> CHR '':'' \<notin> set a
         \<and> CR \<notin> set n \<and> CR \<notin> set a")
  case False
  then have lex: "command_lexer (CHR ''!'' # n @ CHR '':'' # a @ [LF]) =
      (CHR ''!'' # n @ CHR '':'' # a, UNKNOWN_COMMAND)"
    using command_lexer_add[OF assms(1,2)] by simp
  have "\<not> (name_ok n \<and> valid_port a)"
  proof
    assume h: "name_ok n \<and> valid_port a"
    then have "list_all isdigit a" "a \<noteq> []" by (auto simp: valid_port_def)
    then have "CHR '':'' \<notin> set a" "CR \<notin> set a"
      by (auto simp: list_all_iff isdigit_def less_eq_char_def)
    with h False show False by (auto simp: name_ok_def valid_port_def)
  qed
  then show ?thesis by (auto simp: handle_command_unfold[OF nul] lex)
next
  case True
  then have lex: "command_lexer (CHR ''!'' # n @ CHR '':'' # a @ [LF]) =
      (CHR ''!'' # n @ CHR '':'' # a, ADD_MAPPING)"
    using command_lexer_add[OF assms(1,2)] by simp
  have nok: "name_ok n" using True assms by (simp add: name_ok_def)
  have wf: "entryCount m \<le> length (entries m)" using assms by simp
  have add: "add_map_entry m (CHR ''!'' # n @ CHR '':'' # a) =
     (if valid_port a \<and> n \<notin> airportName ` set (registry_table m)
      then Inr (m\<lparr>entries := (entries m)[entryCount m := \<lparr>airportName = n, portNumber = a\<rparr>],
                 entryCount := entryCount m + 1\<rparr>)
      else Inr m)"
    using True assms(3-5) add_map_entry_parts[of n a m, OF _ _ _ _ wf]
    by (cases "valid_port a") (simp_all add: is_unsigned_short_short[OF assms(4)])
  show ?thesis by (simp add: handle_command_unfold[OF nul] lex add nok)
qed

lemma registry_table_append:
  assumes "entryCount m < length (entries m)"
  shows "registry_table (m\<lparr>entries := (entries m)[entryCount m := e],
                          entryCount := entryCount m + 1\<rparr>) = registry_table m @ [e]"
  using assms by (simp add: registry_table_def take_Suc_conv_app_nth)

lemma count_list_one_split:
  "count_list t c = 1 \<Longrightarrow> \<exists>n a. t = n @ c # a \<and> c \<notin> set n \<and> c \<notin> set a"
proof -
  assume one: "count_list t c = 1"
  then have "c \<in> set t" using count_list_0_iff[of t c] by auto
  then obtain n a where t: "t = n @ c # a" "c \<notin> set n" by (auto dest: split_list_first)
  then have "count_list n c = 0" by (simp add: count_list_0_iff)
  then have "count_list a c = 0" using one t by simp
  then show ?thesis using t by (auto simp: count_list_0_iff)
qed

lemma command_lexer_ADD_D:
  assumes "command_lexer line = (s, ADD_MAPPING)"
  shows "\<exists>n a. s = CHR ''!'' # n @ CHR '':'' # a \<and> s = trim_newline line \<and> name_ok n
            \<and> a \<noteq> [] \<and> CHR '':'' \<notin> set a \<and> CR \<notin> set a \<and> LF \<notin> set a"
proof -
  have s: "s = trim_newline line" using assms by (simp add: command_lexer_def Let_def)
  have conds: "c_at s 0 = CHR ''!''" "count_occurrences s '':'' = 1" "length s > 3"
    "c_at s 1 \<noteq> CHR '':''" "c_at s (length s - 1) \<noteq> CHR '':''"
    "count_occurrences s [CR, LF] = 0"
    using assms unfolding command_lexer_def Let_def s[symmetric]
    by (auto split: if_splits)
  from conds(1,3) obtain t where t: "s = CHR ''!'' # t" by (cases s) (auto simp: c_at_def)
  have "count_list t CHR '':'' = 1" using conds(2) t by (simp add: count_occurrences_single)
  from count_list_one_split[OF this]
  obtain n a where na: "t = n @ CHR '':'' # a" "CHR '':'' \<notin> set n" "CHR '':'' \<notin> set a"
    by auto
  have n: "n \<noteq> []" using conds(4) t na by (cases n) (auto simp: c_at_def)
  have a: "a \<noteq> []"
  proof
    assume "a = []"
    then have "s = (CHR ''!'' # n) @ [CHR '':'']" using t na by simp
    then have "c_at s (length s - 1) = CHR '':''" by (simp add: c_at_def nth_append)
    with conds(5) show False by simp
  qed
  have "CR \<notin> set s \<and> LF \<notin> set s" using conds(6) by (simp add: count_occurrences_CRLF)
  then have "CR \<notin> set n" "LF \<notin> set n" and ca: "CR \<notin> set a" "LF \<notin> set a"
    using t na by auto
  then have "name_ok n" using n na by (simp add: name_ok_def)
  moreover have "s = CHR ''!'' # n @ CHR '':'' # a" using t na by simp
  ultimately show ?thesis using s a na(3) ca by blast
qed

lemma handle_command_cases_text:
  assumes wf: "entryCount m \<le> length (entries m)"
    and h: "handle_command m line = Inr (m', out)"
    and nul: "NUL \<notin> set line"
  shows "(m' = m)
       \<or> (m' = sort_mapping m \<and> trim_newline line = ''@'')
       \<or> (\<exists>n a. trim_newline line = CHR ''!'' # n @ CHR '':'' # a \<and> name_ok n
             \<and> n \<notin> airportName ` set (registry_table m)
             \<and> is_unsigned_short a = Inr True \<and> length n < MAX_AIRPORT_ID_LENGTH
             \<and> length a < PORT_NUMBER_LENGTH \<and> CHR '':'' \<notin> set a
             \<and> entryCount m < length (entries m)
             \<and> m' = append_entry m \<lparr>airportName = n, portNumber = a\<rparr> \<and> out = [])"
proof -
  obtain s c where lex: "command_lexer line = (s, c)" by (cases "command_lexer line")
  show ?thesis
  proof (cases c)
    case UNKNOWN_COMMAND
    then show ?thesis using h lex by (simp add: handle_command_unfold[OF nul])
  next
    case LIST_MAPPINGS
    then have "strcmp (trim_newline line) ''@'' = 0"
      using lex by (auto simp: command_lexer_def Let_def split: if_splits)
    then have "trim_newline line = ''@''" by (simp only: strcmp_eq_0_iff)
    then show ?thesis using h lex LIST_MAPPINGS
      by (auto simp: handle_command_unfold[OF nul] print_mappings_def Let_def)
  next
    case QUERY_MAPPING
    then show ?thesis using h lex by (simp add: handle_command_unfold[OF nul])
  next
    case ADD_MAPPING
    then obtain n a where na: "s = CHR ''!'' # n @ CHR '':'' # a" "s = trim_newline line"
      "name_ok n" "a \<noteq> []" "CHR '':'' \<notin> set a"
      using command_lexer_ADD_D lex by blast
    have parts: "add_map_entry m s = (case is_unsigned_short a of
        Inl f \<Rightarrow> Inl f
      | Inr False \<Rightarrow> Inr m
      | Inr True \<Rightarrow>
          if \<not> length n < MAX_AIRPORT_ID_LENGTH \<or> \<not> length a < PORT_NUMBER_LENGTH
          then Inl Buffer_Overflow
          else if n \<in> airportName ` set (registry_table m) then Inr m
          else if entryCount m < length (entries m)
          then Inr (m\<lparr>entries := (entries m)[entryCount m := \<lparr>airportName = n, portNumber = a\<rparr>],
                      entryCount := entryCount m + 1\<rparr>)
          else Inl Index_Out_Of_Bounds)"
      unfolding na(1) using na(3,4,5) wf
      by (intro add_map_entry_parts) (auto simp: name_ok_def)
    from h lex ADD_MAPPING have res: "add_map_entry m s = Inr m'" "out = []"
      by (auto simp: handle_command_unfold[OF nul] split: sum.splits)
    have tl: "trim_newline line = CHR ''!'' # n @ CHR '':'' # a" using na(1,2) by simp
    show ?thesis
    proof (cases "m' = m")
      case True
      then show ?thesis by simp
    next
      case False
      then have "is_unsigned_short a = Inr True \<and> length n < MAX_AIRPORT_ID_LENGTH
          \<and> length a < PORT_NUMBER_LENGTH \<and> n \<notin> airportName ` set (registry_table m)
          \<and> entryCount m < length (entries m)
          \<and> m' = append_entry m \<lparr>airportName = n, portNumber = a\<rparr>"
        using res(1) unfolding parts append_entry_def
        by (simp split: sum.splits bool.splits if_splits)
      then show ?thesis using tl na(3,5) res(2) by blast
    qed
  qed
qed

lemma handle_command_c_str: "handle_command m (c_str line) = handle_command m line"
  by (simp add: handle_command_def c_str_idem)

lemma handle_command_cases:
  assumes wf: "entryCount m \<le> length (entries m)"
    and h: "handle_command m line = Inr (m', out)"
  shows "(m' = m)
       \<or> (m' = sort_mapping m \<and> trim_newline (c_str line) = ''@'')
       \<or> (\<exists>n a. trim_newline (c_str line) = CHR ''!'' # n @ CHR '':'' # a \<and> name_ok n
             \<and> n \<notin> airportName ` set (registry_table m)
             \<and> is_unsigned_short a = Inr True \<and> length n < MAX_AIRPORT_ID_LENGTH
             \<and> length a < PORT_NUMBER_LENGTH \<and> CHR '':'' \<notin> set a
             \<and> entryCount m < length (entries m)
             \<and> m' = append_entry m \<lparr>airportName = n, portNumber = a\<rparr> \<and> out = [])"
proof -
  have "handle_command m (c_str line) = Inr (m', out)" using h by (simp only: handle_command_c_str)
  from handle_command_cases_text[OF wf this NUL_notin_c_str] show ?thesis .
qed

lemma entryCount_sort_mapping [simp]: "entryCount (sort_mapping m) = entryCount m"
  by (simp add: sort_mapping_def)

lemma length_entries_sort_mapping [simp]: "length (entries (sort_mapping m)) = length (entries m)"
  by (simp add: sort_mapping_def length_sort_outer_loop)

lemma mset_registry_table_sort_mapping:
  "entryCount m \<le> length (entries m) \<Longrightarrow>
   mset (registry_table (sort_mapping m)) = mset (registry_table m)"
  using mset_take_sort_outer_loop[of "entryCount m" "entries m" airportName 0]
  by (simp add: registry_table_def sort_mapping_def)

lemma drop_entries_sort_mapping:
  "entryCount m \<le> length (entries m) \<Longrightarrow>
   drop (entryCount m) (entries (sort_mapping m)) = drop (entryCount m) (entries m)"
  using mset_take_sort_outer_loop[of "entryCount m" "entries m" airportName 0]
  by (simp add: sort_mapping_def)

lemma sorted_registry_table_sort_mapping:
  "entryCount m \<le> length (entries m) \<Longrightarrow>
   sorted (map airportName (registry_table (sort_mapping m)))"
  using sorted_sort_outer_loop[of "entryCount m" "entries m" airportName]
  by (simp add: registry_table_def sort_mapping_def)

lemma sort_mapping_idem:
  "entryCount m \<le> length (entries m) \<Longrightarrow> sort_mapping (sort_mapping m) = sort_mapping m"
  by (simp add: sort_mapping_def sort_outer_loop_idem)

lemma map_nth_upt_take:
  "n \<le> length xs \<Longrightarrow> map (\<lambda>i. f (xs ! i)) [0 ..< n] = map f (take n xs)"
  by (rule nth_equalityI) simp_all

lemma print_mappings_table:
  assumes "entryCount m \<le> length (entries m)"
  shows "print_mappings m =
     (sort_mapping m, concat (map entry_line (registry_table (sort_mapping m))))"
  using assms map_nth_upt_take[of "entryCount m" "entries (sort_mapping m)" entry_line]
  by (simp add: print_mappings_def Let_def registry_table_def)

lemma serve_invariant:
  assumes step: "\<And>m line m' out. P m \<Longrightarrow> handle_command m line = Inr (m', out) \<Longrightarrow> P m'"
    and "P m" and "serve m lines = Inr (m', outs)"
  shows "P m'"
  using assms(2,3)
proof (induction lines arbitrary: m outs)
  case Nil
  then show ?case by simp
next
  case (Cons line lines)
  then obtain m1 out1 outs1 where
    "handle_command m line = Inr (m1, out1)" "serve m1 lines = Inr (m', outs1)"
    by (auto split: sum.splits prod.splits)
  then show ?case using Cons.IH[of m1 outs1] step[of m line m1 out1] Cons.prems(1) by blast
qed

lemma handle_command_wf:
  assumes "entryCount m \<le> length (entries m)" "handle_command m line = Inr (m', out)"
  shows "entryCount m' \<le> length (entries m') \<and> length (entries m') = length (entries m)"
  using handle_command_cases[OF assms] assms(1) by (auto simp: append_entry_def)

lemma serve_wf:
  assumes "entryCount m \<le> length (entries m)" "serve m lines = Inr (m', outs)"
  shows "entryCount m' \<le> length (entries m') \<and> length (entries m') = length (entries m)"
proof -
  let ?P = "\<lambda>x. entryCount x \<le> length (entries x) \<and> length (entries x) = length (entries m)"
  have "?P m'"
  proof (rule serve_invariant[where P = ?P, OF _ _ assms(2)])
    show "?P m" using assms(1) by simp
  next
    fix x line x' out
    assume "?P x" "handle_command x line = Inr (x', out)"
    then show "?P x'" using handle_command_wf[of x line x' out] by simp
  qed
  then show ?thesis .
qed

lemma registry_table_append_entry:
  "entryCount m < length (entries m) \<Longrightarrow> registry_table (append_entry m e) = registry_table m @ [e]"
  unfolding append_entry_def by (rule registry_table_append)

lemma handle_command_distinct:
  assumes "entryCount m \<le> length (entries m)" "handle_command m line = Inr (m', out)"
    and "distinct (map airportName (registry_table m))"
  shows "distinct (map airportName (registry_table m'))"
proof -
  from handle_command_cases[OF assms(1,2)] show ?thesis
  proof (elim disjE exE conjE)
    assume "m' = m" then show ?thesis using assms(3) by simp
  next
    assume "m' = sort_mapping m"
    then have "mset (map airportName (registry_table m')) = mset (map airportName (registry_table m))"
      using mset_registry_table_sort_mapping[OF assms(1)] by simp
    then show ?thesis using assms(3) by (metis mset_eq_imp_distinct_iff)
  next
    fix n a
    assume "n \<notin> airportName ` set (registry_table m)" "entryCount m < length (entries m)"
      "m' = append_entry m \<lparr>airportName = n, portNumber = a\<rparr>"
    then show ?thesis using assms(3) by (simp add: registry_table_append_entry)
  qed
qed

lemma serve_distinct:
  assumes "entryCount m \<le> length (entries m)" "serve m lines = Inr (m', outs)"
    and "distinct (map airportName (registry_table m))"
  shows "distinct (map airportName (registry_table m'))"
proof -
  let ?P = "\<lambda>x. entryCount x \<le> length (entries x) \<and> distinct (map airportName (registry_table x))"
  have "?P m'"
  proof (rule serve_invariant[where P = ?P, OF _ _ assms(2)])
    show "?P m" using assms(1,3) by simp
  next
    fix x line x' out
    assume "?P x" "handle_command x line = Inr (x', out)"
    then show "?P x'"
      using handle_command_wf[of x line x' out] handle_command_distinct[of x line x' out]
      by simp
  qed
  then show ?thesis by simp
qed

lemma find_filter_single: "filter P xs = [e] \<Longrightarrow> find P xs = Some e"
  by (induction xs) (auto split: if_splits)

lemma filter_single_mset:
  assumes "mset ys = mset xs" "filter P xs = [e]"
  shows "filter P ys = [e]"
proof -
  have "mset (filter P ys) = mset (filter P xs)" by (simp add: assms(1))
  then have "mset (filter P ys) = {#e#}" by (simp only: assms(2) mset.simps)
  then show ?thesis by (simp only: mset_single_iff)
qed


section \<open>Properties of the registry\<close>

lemma takeWhile_until: "c \<notin> set n \<Longrightarrow> takeWhile (\<lambda>x. x \<noteq> c) (n @ c # a) = n"
  by (induction n) auto

lemma split_at_unique:
  assumes "n @ c # a = n0 @ c # a0" "c \<notin> set n" "c \<notin> set n0"
  shows "n = n0 \<and> a = a0"
proof -
  have "takeWhile (\<lambda>x. x \<noteq> c) (n @ c # a) = n" using assms(2) by (rule takeWhile_until)
  moreover have "takeWhile (\<lambda>x. x \<noteq> c) (n0 @ c # a0) = n0" using assms(3) by (rule takeWhile_until)
  ultimately have "n = n0" using assms(1) by simp
  then show ?thesis using assms(1) by simp
qed

lemma trim_newline_add_line:
  "LF \<notin> set n \<Longrightarrow> LF \<notin> set a \<Longrightarrow>
   trim_newline (CHR ''!'' # n @ CHR '':'' # a @ [LF]) = CHR ''!'' # n @ CHR '':'' # a"
  using trim_newline_line[of "CHR ''!'' # n @ CHR '':'' # a"] by simp

text \<open>An add line that changes the table appends exactly its name and address.\<close>

lemma accepted_add_line:
  assumes wf: "entryCount m \<le> length (entries m)"
    and nl: "LF \<notin> set n" "LF \<notin> set a"
    and nul: "NUL \<notin> set n" "NUL \<notin> set a"
    and h: "handle_command m (CHR ''!'' # n @ CHR '':'' # a @ [LF]) = Inr (m', out)"
    and ch: "m' \<noteq> m"
  shows "name_ok n \<and> n \<notin> airportName ` set (registry_table m)
       \<and> is_unsigned_short a = Inr True
       \<and> length n < MAX_AIRPORT_ID_LENGTH \<and> length a < PORT_NUMBER_LENGTH
       \<and> entryCount m < length (entries m)
       \<and> m' = append_entry m \<lparr>airportName = n, portNumber = a\<rparr> \<and> out = []"
proof -
  have "c_str (CHR ''!'' # n @ CHR '':'' # a @ [LF]) = CHR ''!'' # n @ CHR '':'' # a @ [LF]"
    using nul by (intro c_str_id) simp
  then have tr: "trim_newline (c_str (CHR ''!'' # n @ CHR '':'' # a @ [LF]))
      = CHR ''!'' # n @ CHR '':'' # a"
    using trim_newline_add_line[OF nl] by simp
  from handle_command_cases[OF wf h] ch tr
  obtain n0 a0 where c: "CHR ''!'' # n @ CHR '':'' # a = CHR ''!'' # n0 @ CHR '':'' # a0"
      "name_ok n0" "n0 \<notin> airportName ` set (registry_table m)"
      "is_unsigned_short a0 = Inr True" "length n0 < MAX_AIRPORT_ID_LENGTH"
      "length a0 < PORT_NUMBER_LENGTH" "CHR '':'' \<notin> set a0"
      "entryCount m < length (entries m)"
      "m' = append_entry m \<lparr>airportName = n0, portNumber = a0\<rparr>" "out = []"
    by auto
  have cnt: "count_list (n @ CHR '':'' # a) CHR '':'' = count_list (n0 @ CHR '':'' # a0) CHR '':''"
    using c(1) by simp
  have "count_list n0 CHR '':'' = 0" "count_list a0 CHR '':'' = 0"
    using c(2,7) by (simp_all add: count_list_0_iff name_ok_def)
  then have "count_list n CHR '':'' = 0" using cnt by simp
  then have "CHR '':'' \<notin> set n" by (simp add: count_list_0_iff)
  moreover have "CHR '':'' \<notin> set n0" using c(2) by (simp add: name_ok_def)
  ultimately have "n = n0 \<and> a = a0" using split_at_unique[of n "CHR '':''" a n0 a0] c(1) by simp
  then show ?thesis using c by simp
qed

lemma query_line:
  assumes "entryCount m \<le> length (entries m)" "LF \<notin> set name" "NUL \<notin> set name"
  shows "handle_command m (CHR ''?'' # name @ [LF]) =
     Inr (m, case find (\<lambda>e. airportName e = name) (registry_table m) of
               None \<Rightarrow> [CHR '';'', LF]
             | Some e \<Rightarrow> portNumber e @ [LF])"
proof -
  have "NUL \<notin> set (CHR ''?'' # name @ [LF])" using assms(3) by simp
  from handle_command_unfold[OF this] show ?thesis
    by (simp add: command_lexer_query[OF assms(2)] print_queried_mapping_find[OF assms(1)])
qed

lemma handle_command_keeps_entry:
  assumes wf: "entryCount m \<le> length (entries m)"
    and h: "handle_command m line = Inr (m', out)"
    and f: "filter (\<lambda>e. airportName e = n) (registry_table m) = [e]"
  shows "filter (\<lambda>e. airportName e = n) (registry_table m') = [e]"
proof -
  from handle_command_cases[OF wf h] show ?thesis
  proof (elim disjE exE conjE)
    assume "m' = m" then show ?thesis using f by simp
  next
    assume "m' = sort_mapping m"
    then show ?thesis
      using filter_single_mset[OF _ f, of "registry_table m'"]
        mset_registry_table_sort_mapping[OF wf] by simp
  next
    fix n' a
    assume a: "n' \<notin> airportName ` set (registry_table m)" "entryCount m < length (entries m)"
      "m' = append_entry m \<lparr>airportName = n', portNumber = a\<rparr>"
    have "e \<in> set (filter (\<lambda>e. airportName e = n) (registry_table m))" using f by simp
    then have "n \<in> airportName ` set (registry_table m)" by auto
    then have "n' \<noteq> n" using a(1) by auto
    then show ?thesis using a f by (simp add: registry_table_append_entry)
  qed
qed

lemma serve_keeps_entry:
  assumes "entryCount m \<le> length (entries m)" "serve m lines = Inr (m', outs)"
    and "filter (\<lambda>e. airportName e = n) (registry_table m) = [e]"
  shows "entryCount m' \<le> length (entries m')
       \<and> filter (\<lambda>e. airportName e = n) (registry_table m') = [e]"
proof -
  let ?P = "\<lambda>x. entryCount x \<le> length (entries x)
              \<and> filter (\<lambda>e. airportName e = n) (registry_table x) = [e]"
  show "?P m'"
  proof (rule serve_invariant[where P = ?P, OF _ _ assms(2)])
    show "?P m" using assms(1,3) by simp
  next
    fix x line x' out
    assume "?P x" "handle_command x line = Inr (x', out)"
    then show "?P x'"
      using handle_command_wf[of x line x' out] handle_command_keeps_entry[of x line x' out n e]
      by simp
  qed
qed

lemma registry_table_new_mapping [simp]: "registry_table (new_mapping junk) = []"
  by (simp add: registry_table_def new_mapping_def)

lemma wf_new_mapping [simp]: "entryCount (new_mapping junk) \<le> length (entries (new_mapping junk))"
  by (simp add: new_mapping_def)

lemma length_entries_new_mapping [simp]: "length (entries (new_mapping junk)) = MAX_MAP_ENTRIES"
  by (simp add: new_mapping_def)

lemma find_append_None:
  "find P xs = None \<Longrightarrow> find P (xs @ ys) = find P ys"
  by (induction xs) (auto split: if_splits)

lemma trim_newline_prefix: "\<exists>rest. line = trim_newline line @ rest"
  by (metis takeWhile_dropWhile_id trim_newline_takeWhile)

lemma handle_command_names:
  assumes wf: "entryCount m \<le> length (entries m)"
    and h: "handle_command m line = Inr (m', out)"
  shows "airportName ` set (registry_table m')
       \<subseteq> airportName ` set (registry_table m)
          \<union> {n. take (length n + 2) line = CHR ''!'' # n @ '':''}"
proof -
  from handle_command_cases[OF wf h] show ?thesis
  proof (elim disjE exE conjE)
    assume "m' = m" then show ?thesis by auto
  next
    assume "m' = sort_mapping m"
    then have "set (registry_table m') = set (registry_table m)"
      using mset_registry_table_sort_mapping[OF wf] by (metis set_mset_mset)
    then show ?thesis by auto
  next
    fix n a
    assume a: "trim_newline (c_str line) = CHR ''!'' # n @ CHR '':'' # a"
      "entryCount m < length (entries m)"
      "m' = append_entry m \<lparr>airportName = n, portNumber = a\<rparr>"
    obtain r1 where r1: "line = c_str line @ r1" using c_str_prefix by blast
    obtain r2 where r2: "c_str line = trim_newline (c_str line) @ r2"
      using trim_newline_prefix by blast
    have "line = trim_newline (c_str line) @ (r2 @ r1)" using r1 r2 by (metis append_assoc)
    then obtain rest where "line = trim_newline (c_str line) @ rest" by blast
    then have "line = (CHR ''!'' # n @ '':'') @ (a @ rest)" using a(1) by simp
    then have "take (length n + 2) line = CHR ''!'' # n @ '':''"
      by (metis append_eq_conv_conj length_Cons length_append_singleton add_2_eq_Suc' append_Cons)
    then show ?thesis using a by (auto simp: registry_table_append_entry)
  qed
qed

lemma serve_names:
  assumes "entryCount m \<le> length (entries m)" "serve m lines = Inr (m', outs)"
  shows "airportName ` set (registry_table m')
       \<subseteq> airportName ` set (registry_table m)
          \<union> {n. \<exists>l\<in>set lines. take (length n + 2) l = CHR ''!'' # n @ '':''}"
  using assms
proof (induction lines arbitrary: m outs)
  case Nil
  then show ?case by simp
next
  case (Cons line lines)
  then obtain m1 out1 outs1 where
    s: "handle_command m line = Inr (m1, out1)" "serve m1 lines = Inr (m', outs1)"
    by (auto split: sum.splits prod.splits)
  have wf1: "entryCount m1 \<le> length (entries m1)"
    using handle_command_wf[OF Cons.prems(1) s(1)] by simp
  from Cons.IH[OF wf1 s(2)] handle_command_names[OF Cons.prems(1) s(1)]
  show ?case by auto
qed

lemma wellformed_not_malformed:
  assumes "name_ok n" "a \<noteq> []" "CHR '':'' \<notin> set a" "CR \<notin> set a"
  shows "\<not> add_line_malformed (CHR ''!'' # n @ CHR '':'' # a)"
proof -
  have n: "n \<noteq> []" "CHR '':'' \<notin> set n" "CR \<notin> set n" using assms(1) by (simp_all add: name_ok_def)
  have "count_list (CHR ''!'' # n @ CHR '':'' # a) CHR '':'' = 1"
    using n assms(3) by (simp add: count_list_0_iff)
  moreover have "takeWhile (\<lambda>c. c \<noteq> CHR '':'') (n @ CHR '':'' # a) = n"
    using n(2) by (rule takeWhile_until)
  moreover have "last (CHR ''!'' # n @ CHR '':'' # a) = last a" using assms(2) by simp
  moreover have "last a \<in> set a" using assms(2) by simp
  ultimately show ?thesis
    using n assms(3,4) unfolding add_line_malformed_def by auto
qed

lemma handle_command_malformed_text:
  assumes "line \<noteq> []" "hd line = CHR ''!''" "add_line_malformed (trim_newline line)"
    and nul: "NUL \<notin> set line"
  shows "handle_command m line = Inr (m, [])"
proof -
  obtain rest where line: "line = CHR ''!'' # rest" using assms(1,2) by (cases line) auto
  obtain s c where lex: "command_lexer line = (s, c)" by (cases "command_lexer line")
  have s: "s = CHR ''!'' # trim_newline rest" using lex line by (auto simp: command_lexer_def Let_def)
  have "c \<noteq> LIST_MAPPINGS" "c \<noteq> QUERY_MAPPING"
    using lex s line by (auto simp: command_lexer_def Let_def c_at_def split: if_splits)
  moreover have "c \<noteq> ADD_MAPPING"
  proof
    assume "c = ADD_MAPPING"
    then have "command_lexer line = (s, ADD_MAPPING)" using lex by simp
    from command_lexer_ADD_D[OF this] obtain n a where
      na: "s = CHR ''!'' # n @ CHR '':'' # a" "s = trim_newline line" "name_ok n" "a \<noteq> []"
      "CHR '':'' \<notin> set a" "CR \<notin> set a" by blast
    have "\<not> add_line_malformed s"
      unfolding na(1) using na(3-6) by (rule wellformed_not_malformed)
    then show False using assms(3) na(2) by simp
  qed
  ultimately have "c = UNKNOWN_COMMAND" by (cases c) auto
  then show ?thesis using lex by (simp add: handle_command_unfold[OF nul])
qed

lemma handle_command_malformed:
  assumes "line \<noteq> []" "hd line = CHR ''!''" "add_line_malformed (trim_newline (c_str line))"
  shows "handle_command m line = Inr (m, [])"
proof -
  obtain rest where line: "line = CHR ''!'' # rest" using assms(1,2) by (cases line) auto
  then have c: "c_str line = CHR ''!'' # c_str rest" by (simp add: c_str_def)
  have "handle_command m (c_str line) = Inr (m, [])"
    using assms(3) c by (intro handle_command_malformed_text NUL_notin_c_str) simp_all
  then show ?thesis by (simp only: handle_command_c_str)
qed

lemma handle_command_invalid_port:
  assumes wf: "entryCount m \<le> length (entries m)" and nl: "LF \<notin> set n" "LF \<notin> set a"
    and nul: "NUL \<notin> set n" "NUL \<notin> set a"
    and bad: "\<not> list_all isdigit a \<or> decimal a = 0 \<or> (65535 < decimal a \<and> decimal a \<le> INT_MAX)"
  shows "handle_command m (CHR ''!'' # n @ CHR '':'' # a @ [LF]) = Inr (m, [])"
proof -
  have ius: "is_unsigned_short a = Inr False"
  proof (cases "list_all isdigit a")
    case False
    then show ?thesis by (simp add: is_unsigned_short_def is_numeric_iff)
  next
    case True
    then have "decimal a \<le> INT_MAX" using bad by (auto simp: INT_MAX_def)
    then show ?thesis using True bad
      by (auto simp: is_unsigned_short_def is_numeric_iff atoi_digits_string USHRT_MAX_def)
  qed
  have nul': "NUL \<notin> set (CHR ''!'' # n @ CHR '':'' # a @ [LF])" using nul by simp
  show ?thesis
  proof (cases "n \<noteq> [] \<and> a \<noteq> [] \<and> CHR '':'' \<notin> set n \<and> CHR '':'' \<notin> set a
         \<and> CR \<notin> set n \<and> CR \<notin> set a")
    case False
    then have "command_lexer (CHR ''!'' # n @ CHR '':'' # a @ [LF])
        = (CHR ''!'' # n @ CHR '':'' # a, UNKNOWN_COMMAND)"
      using command_lexer_add[OF nl] by simp
    then show ?thesis by (simp add: handle_command_unfold[OF nul'])
  next
    case True
    then have "add_map_entry m (CHR ''!'' # n @ CHR '':'' # a) = Inr m"
      using add_map_entry_parts[of n a m] wf ius by simp
    moreover have "command_lexer (CHR ''!'' # n @ CHR '':'' # a @ [LF])
        = (CHR ''!'' # n @ CHR '':'' # a, ADD_MAPPING)"
      using True command_lexer_add[OF nl] by simp
    ultimately show ?thesis by (simp add: handle_command_unfold[OF nul'])
  qed
qed


section \<open>Properties of the service node\<close>

lemma visitorCount_sort_visitors [simp]: "visitorCount (sort_visitors v) = visitorCount v"
  by (simp add: sort_visitors_def)

lemma length_visitorEntries_sort_visitors [simp]:
  "length (visitorEntries (sort_visitors v)) = length (visitorEntries v)"
  by (simp add: sort_visitors_def length_sort_outer_loop)

lemma mset_visit_log_sort_visitors:
  "visitorCount v \<le> length (visitorEntries v) \<Longrightarrow>
   mset (visit_log (sort_visitors v)) = mset (visit_log v)"
  using mset_take_sort_outer_loop[of "visitorCount v" "visitorEntries v" aircraftID 0]
  by (simp add: visit_log_def sort_visitors_def)

lemma sorted_visit_log_sort_visitors:
  "visitorCount v \<le> length (visitorEntries v) \<Longrightarrow>
   sorted (map aircraftID (visit_log (sort_visitors v)))"
  using sorted_sort_outer_loop[of "visitorCount v" "visitorEntries v" aircraftID]
  by (simp add: visit_log_def sort_visitors_def)

lemma print_all_visitors_log:
  assumes "visitorCount v \<le> length (visitorEntries v)"
  shows "print_all_visitors v =
     (sort_visitors v,
      concat (map (\<lambda>e. aircraftID e @ [LF]) (visit_log (sort_visitors v))) @ [CHR ''.'', LF])"
  using assms
    map_nth_upt_take[of "visitorCount v" "visitorEntries (sort_visitors v)" "\<lambda>e. aircraftID e @ [LF]"]
  by (simp add: print_all_visitors_def Let_def visit_log_def)

lemma visit_log_append_visitor:
  "visitorCount v < length (visitorEntries v) \<Longrightarrow>
   visit_log (append_visitor v e) = visit_log v @ [e]"
  by (simp add: visit_log_def append_visitor_def take_Suc_conv_app_nth)

lemma record_visit_result:
  "record_visit v ident =
     (if \<not> length ident < MAX_AIRCRAFT_NAME_LENGTH then Inl Buffer_Overflow
      else if visitorCount v < length (visitorEntries v)
      then Inr (append_visitor v \<lparr>aircraftID = ident\<rparr>)
      else Inl Index_Out_Of_Bounds)"
  by (simp add: record_visit_def strcpy_def append_visitor_def Let_def)

lemma control_handle_command_cases:
  assumes "control_handle_command info v line = Inr (v', out)"
  shows "(trim_newline (c_str line) = ''log'' \<and> (v', out) = print_all_visitors v)
       \<or> (trim_newline (c_str line) \<noteq> ''log''
           \<and> length (trim_newline (c_str line)) < MAX_AIRCRAFT_NAME_LENGTH
           \<and> visitorCount v < length (visitorEntries v)
           \<and> v' = append_visitor v \<lparr>aircraftID = trim_newline (c_str line)\<rparr>
           \<and> out = info @ [LF])"
proof (cases "strcmp (trim_newline (c_str line)) ''log'' = 0")
  case True
  then have "trim_newline (c_str line) = ''log''" by (simp only: strcmp_eq_0_iff)
  then show ?thesis using assms True
    by (simp add: control_handle_command_def control_command_lexer_def Let_def)
next
  case False
  then have ne: "trim_newline (c_str line) \<noteq> ''log''" by (simp only: strcmp_eq_0_iff) simp
  have "record_visit v (trim_newline (c_str line)) = Inr v'" "out = info @ [LF]"
    using assms False
    by (auto simp: control_handle_command_def control_command_lexer_def Let_def split: sum.splits)
  then show ?thesis using ne unfolding record_visit_result by (auto split: if_splits)
qed

lemma control_handle_command_wf:
  assumes "visitorCount v \<le> length (visitorEntries v)"
    "control_handle_command info v line = Inr (v', out)"
  shows "visitorCount v' \<le> length (visitorEntries v')
       \<and> length (visitorEntries v') = length (visitorEntries v)"
  using control_handle_command_cases[OF assms(2)] assms(1)
  by (auto simp: append_visitor_def print_all_visitors_def Let_def)

lemma control_serve_wf:
  assumes "visitorCount v \<le> length (visitorEntries v)"
    "control_serve info v lines = Inr (v', outs)"
  shows "visitorCount v' \<le> length (visitorEntries v')
       \<and> length (visitorEntries v') = length (visitorEntries v)"
  using assms
proof (induction lines arbitrary: v outs)
  case Nil
  then show ?case by simp
next
  case (Cons line lines)
  then obtain v1 out1 outs1 where
    s: "control_handle_command info v line = Inr (v1, out1)"
       "control_serve info v1 lines = Inr (v', outs1)"
    by (auto split: sum.splits prod.splits)
  from control_handle_command_wf[OF Cons.prems(1) s(1)] Cons.IH[OF _ s(2)]
  show ?case by simp
qed

lemma wf_new_visitors: "visitorCount (new_visitors junk) \<le> length (visitorEntries (new_visitors junk))"
  by (simp add: new_visitors_def)

lemma visit_log_new_visitors: "visit_log (new_visitors junk) = []"
  by (simp add: visit_log_def new_visitors_def)

text \<open>Visit lines only: the log holds their identities in the order of arrival.\<close>

lemma control_serve_visits:
  assumes "visitorCount v \<le> length (visitorEntries v)"
    "control_serve info v lines = Inr (v', outs)"
    "\<forall>l\<in>set lines. trim_newline (c_str l) \<noteq> ''log''"
  shows "map aircraftID (visit_log v')
       = map aircraftID (visit_log v) @ map (\<lambda>l. trim_newline (c_str l)) lines"
  using assms
proof (induction lines arbitrary: v outs)
  case Nil
  then show ?case by simp
next
  case (Cons line lines)
  then obtain v1 out1 outs1 where
    s: "control_handle_command info v line = Inr (v1, out1)"
       "control_serve info v1 lines = Inr (v', outs1)"
    by (auto split: sum.splits prod.splits)
  have nl: "trim_newline (c_str line) \<noteq> ''log''" using Cons.prems(3) by simp
  from control_handle_command_cases[OF s(1)] nl
  have v1: "visitorCount v < length (visitorEntries v)"
    "v1 = append_visitor v \<lparr>aircraftID = trim_newline (c_str line)\<rparr>" by auto
  have wf1: "visitorCount v1 \<le> length (visitorEntries v1)"
    using control_handle_command_wf[OF Cons.prems(1) s(1)] by simp
  have "map aircraftID (visit_log v')
      = map aircraftID (visit_log v1) @ map (\<lambda>l. trim_newline (c_str l)) lines"
    using Cons.IH[OF wf1 s(2)] Cons.prems(3) by simp
  then show ?case using v1 by (simp add: visit_log_append_visitor)
qed

lemma length_visitorEntries_new_visitors:
  "length (visitorEntries (new_visitors junk)) = MAX_VISITOR_ENTRIES"
  by (simp add: new_visitors_def)


section \<open>Properties of the itinerant client\<close>

declare resolve_loop.simps [simp del] visit_loop.simps [simp del]

lemma fgets_split_line:
  "LF \<notin> set l \<Longrightarrow> length l < k \<Longrightarrow> fgets_split k (l @ LF # rest) = (l @ [LF], rest)"
proof (induction l arbitrary: k)
  case Nil
  then show ?case by (cases k) simp_all
next
  case (Cons c l)
  then obtain k' where k: "k = Suc k'" by (cases k) auto
  then show ?case using Cons by auto
qed

lemma fgets_line:
  "LF \<notin> set l \<Longrightarrow> length l < n - 1 \<Longrightarrow> fgets n (l @ LF # rest) = Some (l @ [LF], rest)"
  by (simp add: fgets_def fgets_split_line)

lemma length_fgets_split: "length (fst (fgets_split k s)) \<le> k"
  by (induction k s rule: fgets_split.induct) (auto split: prod.splits)

lemma connect_to_port_cases:
  "connect_to_port p = Inr None \<longleftrightarrow> p = Refused"
  "connect_to_port p = Inr (Some (bytes, w)) \<longleftrightarrow> p = Connected bytes w"
  by (cases p; simp add: connect_to_port_def)+

lemma visit_loop_trace:
  "visit_loop net ds i st = Inr st' \<Longrightarrow> i \<le> length ds \<Longrightarrow>
   connections st' = connections st @ drop i ds
   \<and> length (destinationInfo st') = length (destinationInfo st)
   \<and> (visitingSuccess st' \<longleftrightarrow>
        visitingSuccess st \<and> (\<forall>k. i \<le> k \<and> k < length ds \<longrightarrow> net k (ds ! k) \<noteq> Refused))"
proof (induction net ds i st rule: visit_loop.induct)
  case (1 net ds i st)
  show ?case
  proof (cases "i < length ds")
    case False
    then have "st' = st" using "1.prems"(1) by (subst (asm) visit_loop.simps) simp
    then show ?thesis using False "1.prems"(2) by auto
  next
    case True
    have dr: "drop i ds = ds ! i # drop (Suc i) ds" using True by (simp add: Cons_nth_drop_Suc)
    have range: "(\<forall>k. i \<le> k \<and> k < length ds \<longrightarrow> net k (ds ! k) \<noteq> Refused)
        \<longleftrightarrow> net i (ds ! i) \<noteq> Refused
            \<and> (\<forall>k. Suc i \<le> k \<and> k < length ds \<longrightarrow> net k (ds ! k) \<noteq> Refused)"
    proof
      assume L: "\<forall>k. i \<le> k \<and> k < length ds \<longrightarrow> net k (ds ! k) \<noteq> Refused"
      have "net i (ds ! i) \<noteq> Refused" using L True by simp
      moreover have "\<forall>k. Suc i \<le> k \<and> k < length ds \<longrightarrow> net k (ds ! k) \<noteq> Refused"
        using L by (simp add: Suc_leD)
      ultimately show "net i (ds ! i) \<noteq> Refused
            \<and> (\<forall>k. Suc i \<le> k \<and> k < length ds \<longrightarrow> net k (ds ! k) \<noteq> Refused)" by simp
    next
      assume R: "net i (ds ! i) \<noteq> Refused
            \<and> (\<forall>k. Suc i \<le> k \<and> k < length ds \<longrightarrow> net k (ds ! k) \<noteq> Refused)"
      show "\<forall>k. i \<le> k \<and> k < length ds \<longrightarrow> net k (ds ! k) \<noteq> Refused"
      proof (intro allI impI)
        fix k assume k: "i \<le> k \<and> k < length ds"
        then consider "k = i" | "Suc i \<le> k" by linarith
        then show "net k (ds ! k) \<noteq> Refused" using R k by cases simp_all
      qed
    qed
    show ?thesis
    proof (cases "net i (ds ! i)")
      case No_Address
      then show ?thesis using "1.prems"(1) True
        by (subst (asm) visit_loop.simps) (simp add: connect_to_port_def)
    next
      case Stale_Address
      then show ?thesis using "1.prems"(1) True
        by (subst (asm) visit_loop.simps) (simp add: connect_to_port_def)
    next
      case Refused
      then have c: "connect_to_port (net i (ds ! i)) = Inr None"
        by (simp add: connect_to_port_def)
      let ?st = "st\<lparr>visitingSuccess := False,
                    destinationInfo := (destinationInfo st)[i := None],
                    connections := connections st @ [ds ! i]\<rparr>"
      have step: "visit_loop net ds (Suc i) ?st = Inr st'"
        using "1.prems"(1) True c by (subst (asm) visit_loop.simps) simp
      from "1.IH"(1)[OF True c refl step] True
      have "connections st' = connections ?st @ drop (Suc i) ds"
        "length (destinationInfo st') = length (destinationInfo ?st)"
        "visitingSuccess st' \<longleftrightarrow> visitingSuccess ?st
           \<and> (\<forall>k. Suc i \<le> k \<and> k < length ds \<longrightarrow> net k (ds ! k) \<noteq> Refused)"
        by simp_all
      then show ?thesis using dr Refused range by simp
    next
      case (Connected receiveStream sendable)
      then have c: "connect_to_port (net i (ds ! i)) = Inr (Some (receiveStream, sendable))"
        by (simp add: connect_to_port_def)
      let ?response = "case fgets RESPONSE_BUFFER_SIZE receiveStream of
                         None \<Rightarrow> controlResponse st | Some (line, rest) \<Rightarrow> Some line"
      from "1.prems"(1) True c obtain r info where
        w: "sendable \<noteq> 0"
        and r: "?response = Some r" "strcpy MAX_DEST_INFO_LENGTH (c_str r) = Inr info"
        and step: "visit_loop net ds (Suc i)
            (st\<lparr>destinationInfo := (destinationInfo st)[i := Some (trim_newline info)],
                controlResponse := ?response,
                connections := connections st @ [ds ! i]\<rparr>) = Inr st'"
        by (subst (asm) visit_loop.simps)
           (auto simp: Let_def split: option.splits sum.splits if_splits)
      let ?st = "st\<lparr>destinationInfo := (destinationInfo st)[i := Some (trim_newline info)],
                controlResponse := ?response,
                connections := connections st @ [ds ! i]\<rparr>"
      from "1.IH"(2)[OF True c refl refl w refl r(1) r(2) step] True
      have "connections st' = connections ?st @ drop (Suc i) ds"
        "length (destinationInfo st') = length (destinationInfo ?st)"
        "visitingSuccess st' \<longleftrightarrow> visitingSuccess ?st
           \<and> (\<forall>k. Suc i \<le> k \<and> k < length ds \<longrightarrow> net k (ds ! k) \<noteq> Refused)"
        by simp_all
      then show ?thesis using dr Connected range by simp
    qed
  qed
qed

lemma fgets_length:
  "fgets RESPONSE_BUFFER_SIZE s = Some (line, rest) \<Longrightarrow> length line < MAX_DEST_INFO_LENGTH"
  using length_fgets_split[of "RESPONSE_BUFFER_SIZE - 1" s]
  by (auto simp: fgets_def RESPONSE_BUFFER_SIZE_def MAX_DEST_INFO_LENGTH_def split: if_splits)

lemma fgets_Some: "s \<noteq> [] \<Longrightarrow> \<exists>line rest. fgets n s = Some (line, rest)"
  by (cases "fgets_split (n - 1) s") (simp add: fgets_def)

lemma visitable_cases:
  "visitable p \<longleftrightarrow> p = Refused \<or> (\<exists>bytes w. p = Connected bytes w \<and> bytes \<noteq> [] \<and> 0 < w)"
  by (cases p) (simp_all add: visitable_def)

lemma visit_loop_replies:
  assumes "\<forall>k<length ds. visitable (net k (ds ! k))"
    and "i \<le> length ds" and "length (destinationInfo st) = length ds"
  shows "\<exists>st'. visit_loop net ds i st = Inr st'
           \<and> destinationInfo st' = take i (destinationInfo st)
                @ map (\<lambda>k. visit_reply (net k (ds ! k))) [i ..< length ds]"
  using assms
proof (induction net ds i st rule: visit_loop.induct)
  case (1 net ds i st)
  show ?case
  proof (cases "i < length ds")
    case False
    then show ?thesis using "1.prems" by (subst visit_loop.simps) simp
  next
    case True
    have upt: "[i ..< length ds] = i # [Suc i ..< length ds]" using True by (simp add: upt_conv_Cons)
    have tk: "\<And>x. take (Suc i) ((destinationInfo st)[i := x]) = take i (destinationInfo st) @ [x]"
      using True "1.prems"(3) by (simp add: take_Suc_conv_app_nth)
    have "visitable (net i (ds ! i))" using "1.prems"(1) True by simp
    then consider (Refused) "net i (ds ! i) = Refused"
      | (Connected) bytes w where "net i (ds ! i) = Connected bytes w" "bytes \<noteq> []" "0 < w"
      unfolding visitable_cases by blast
    then show ?thesis
    proof cases
      case Refused
      then have c: "connect_to_port (net i (ds ! i)) = Inr None"
        by (simp add: connect_to_port_def)
      let ?st = "st\<lparr>visitingSuccess := False,
                    destinationInfo := (destinationInfo st)[i := None],
                    connections := connections st @ [ds ! i]\<rparr>"
      from "1.IH"(1)[OF True c refl "1.prems"(1)] True "1.prems"(3)
      obtain st' where st': "visit_loop net ds (Suc i) ?st = Inr st'"
        "destinationInfo st' = take (Suc i) (destinationInfo ?st)
                @ map (\<lambda>k. visit_reply (net k (ds ! k))) [Suc i ..< length ds]"
        by auto
      have "visit_loop net ds i st = Inr st'"
        using st'(1) True c by (subst visit_loop.simps) simp
      moreover have "visit_reply (net i (ds ! i)) = None" using Refused by (simp add: visit_reply_def)
      ultimately show ?thesis using st'(2) upt tk by simp
    next
      case Connected
      then have c: "connect_to_port (net i (ds ! i)) = Inr (Some (bytes, w))"
        by (simp add: connect_to_port_def)
      have w: "w \<noteq> 0" using Connected(3) by simp
      obtain line rest where fg: "fgets RESPONSE_BUFFER_SIZE bytes = Some (line, rest)"
        using fgets_Some[OF Connected(2)] by blast
      have "length (c_str line) < MAX_DEST_INFO_LENGTH"
        using fgets_length[OF fg] length_c_str[of line] by simp
      then have cp: "strcpy MAX_DEST_INFO_LENGTH (c_str line) = Inr (c_str line)"
        by (simp add: strcpy_def)
      let ?response = "case fgets RESPONSE_BUFFER_SIZE bytes of
                         None \<Rightarrow> controlResponse st | Some (line, rest) \<Rightarrow> Some line"
      let ?st = "st\<lparr>destinationInfo := (destinationInfo st)[i := Some (trim_newline (c_str line))],
                controlResponse := ?response,
                connections := connections st @ [ds ! i]\<rparr>"
      have resp: "?response = Some line" using fg by simp
      from "1.IH"(2)[OF True c refl refl w refl resp cp "1.prems"(1)] True "1.prems"(3)
      obtain st' where st': "visit_loop net ds (Suc i) ?st = Inr st'"
        "destinationInfo st' = take (Suc i) (destinationInfo ?st)
                @ map (\<lambda>k. visit_reply (net k (ds ! k))) [Suc i ..< length ds]"
        by auto
      have "visit_loop net ds i st = Inr st'"
        using st'(1) True c w fg cp by (subst visit_loop.simps) (simp add: Let_def)
      moreover have "visit_reply (net i (ds ! i)) = Some (trim_newline (c_str line))"
        using Connected(1) fg by (simp add: visit_reply_def)
      ultimately show ?thesis using st'(2) upt tk by simp
    qed
  qed
qed

lemma print_destination_info_lines:
  "n = length infos \<Longrightarrow> print_destination_info infos n = concat (map info_line infos)"
  using map_nth_upt_take[of "length infos" infos info_line]
  by (simp add: print_destination_info_def info_line_def[abs_def])

lemma copy_destinations_ports:
  "\<forall>d\<in>set ds. is_unsigned_short d = Inr True \<and> length d < PORT_NUMBER_LENGTH \<Longrightarrow>
   copy_destinations ds required
     = Inr (map (\<lambda>d. \<lparr>capacity = PORT_NUMBER_LENGTH, content = d\<rparr>) ds, required)"
  by (induction ds) (simp_all add: strcpy_def string_or_port_size_def)

lemma main_ports:
  assumes mp: "mp = ''-'' \<or> is_unsigned_short mp = Inr True"
    and ports: "\<forall>d\<in>set dests. is_unsigned_short d = Inr True \<and> length d < PORT_NUMBER_LENGTH"
    and nonempty: "\<forall>k<length dests. visitable (net k (dests ! k))"
  shows "main (prog # ident # mp # dests) mapper net junk =
       Inr \<lparr>status = (if \<forall>k<length dests. net k (dests ! k) \<noteq> Refused
                      then ROC_NORMAL_OPERATION else ROC_FAILED_TO_CONNECT),
            stdout = concat (map (\<lambda>k. info_line (visit_reply (net k (dests ! k))))
                               [0 ..< length dests]),
            visited = dests\<rparr>"
proof -
  let ?st0 = "\<lparr>visitingSuccess = True,
               destinationInfo = malloc_string_array (length dests) junk,
               controlResponse = None, connections = []\<rparr>"
  have cp: "copy_destinations dests False
      = Inr (map (\<lambda>d. \<lparr>capacity = PORT_NUMBER_LENGTH, content = d\<rparr>) dests, False)"
    by (rule copy_destinations_ports[OF ports])
  have contents: "map (content \<circ> (\<lambda>d. \<lparr>capacity = PORT_NUMBER_LENGTH, content = d\<rparr>)) dests = dests"
    by (simp add: comp_def)
  have valid: "(if strcmp mp ''-'' \<noteq> 0 then is_unsigned_short mp else Inr True) = Inr True"
    using mp by (auto simp: strcmp_eq_0_iff)
  have len0: "length (destinationInfo ?st0) = length dests" by (simp add: malloc_string_array_def)
  from visit_loop_replies[of dests net 0 ?st0] nonempty len0
  obtain st where st: "visit_loop net dests 0 ?st0 = Inr st"
    "destinationInfo st = map (\<lambda>k. visit_reply (net k (dests ! k))) [0 ..< length dests]"
    by auto
  from visit_loop_trace[OF st(1)]
  have tr: "connections st = dests"
    "visitingSuccess st \<longleftrightarrow> (\<forall>k<length dests. net k (dests ! k) \<noteq> Refused)"
    by simp_all
  have vd: "visit_destinations net (malloc_string_array (length dests) junk) dests = Inr st"
    using st(1) by (simp add: visit_destinations_def)
  have out: "print_destination_info (destinationInfo st) (length dests)
      = concat (map (\<lambda>k. info_line (visit_reply (net k (dests ! k)))) [0 ..< length dests])"
    using print_destination_info_lines[of "length dests" "destinationInfo st"] st(2)
    by (simp add: comp_def)
  show ?thesis
    unfolding main_def
    using valid tr out by (simp add: cp contents vd Let_def del: strcmp.simps)
qed

lemma visit_reply_line:
  "LF \<notin> set l \<Longrightarrow> NUL \<notin> set l \<Longrightarrow> length l < RESPONSE_BUFFER_SIZE - 1 \<Longrightarrow>
   visit_reply (Connected (l @ LF # rest) w) = Some l"
proof -
  assume a: "LF \<notin> set l" "NUL \<notin> set l" "length l < RESPONSE_BUFFER_SIZE - 1"
  have "c_str (l @ [LF]) = l @ [LF]" using a(2) by (intro c_str_id) simp
  then show ?thesis using a by (simp add: visit_reply_def fgets_line trim_newline_line)
qed

lemma unresolved_pair: "unresolved (n, r) \<longleftrightarrow> r = None \<or> r = Some '';''"
  by (simp add: unresolved_def)

lemma resolve_loop_result:
  "resolve_loop w stream ds i ok = Inr (ds', ok') \<Longrightarrow> i \<le> length ds \<Longrightarrow>
   ok' = (ok \<and> \<not> list_ex unresolved
                   (replies_for stream (filter needs_resolution (map content (drop i ds)))))"
proof (induction w stream ds i ok rule: resolve_loop.induct)
  case (1 w stream ds i ok)
  show ?case
  proof (cases "i < length ds")
    case False
    then show ?thesis using "1.prems" by (subst (asm) resolve_loop.simps) simp
  next
    case True
    have dr: "drop i ds = ds ! i # drop (Suc i) ds" using True by (simp add: Cons_nth_drop_Suc)
    let ?name = "content (ds ! i)"
    show ?thesis
    proof (cases "is_unsigned_short ?name")
      case (Inl f)
      then show ?thesis using "1.prems"(1) True by (subst (asm) resolve_loop.simps) simp
    next
      case (Inr isPort)
      show ?thesis
      proof (cases isPort)
        case True
        with Inr have port: "is_unsigned_short ?name = Inr True" by simp
        then have nn: "\<not> needs_resolution ?name" by (simp add: needs_resolution_def)
        have step: "resolve_loop w stream ds (Suc i) ok = Inr (ds', ok')"
          using "1.prems"(1) \<open>i < length ds\<close> port by (subst (asm) resolve_loop.simps) simp
        from "1.IH"(1)[OF \<open>i < length ds\<close> port refl step] \<open>i < length ds\<close>
        show ?thesis using dr nn by simp
      next
        case False
        with Inr have name: "is_unsigned_short ?name = Inr False" by simp
        then have nr: "needs_resolution ?name" by (simp add: needs_resolution_def)
        obtain w' where w: "w = Suc w'"
          using "1.prems"(1) \<open>i < length ds\<close> name
          by (subst (asm) resolve_loop.simps) (cases w; simp)
        show ?thesis
        proof (cases "fgets RESPONSE_BUFFER_SIZE stream")
          case None
          have step: "resolve_loop w' stream ds (Suc i) False = Inr (ds', ok')"
            using "1.prems"(1) \<open>i < length ds\<close> name None w
            by (subst (asm) resolve_loop.simps) simp
          from "1.IH"(2)[OF \<open>i < length ds\<close> name refl w None step] \<open>i < length ds\<close>
          have "ok' = False" by simp
          then show ?thesis using dr nr None by (simp add: unresolved_pair)
        next
          case (Some p)
          then obtain reply rest where fg: "fgets RESPONSE_BUFFER_SIZE stream = Some (reply, rest)"
            by (cases p) simp
          from "1.prems"(1) \<open>i < length ds\<close> name fg w obtain resolved where
            cp: "strcpy (capacity (ds ! i)) (trim_newline (c_str reply)) = Inr resolved"
            and step: "resolve_loop w' rest (ds[i := (ds ! i)\<lparr>content := resolved\<rparr>]) (Suc i)
                (if strcmp resolved '';'' = 0 then False else ok) = Inr (ds', ok')"
            by (subst (asm) resolve_loop.simps) (auto split: sum.splits)
          have res: "resolved = trim_newline (c_str reply)"
            using cp by (auto simp: strcpy_def split: if_splits)
          from "1.IH"(3)[OF \<open>i < length ds\<close> name refl w fg[unfolded prod.collapse] refl cp step]
            \<open>i < length ds\<close>
          have "ok' = ((if strcmp resolved '';'' = 0 then False else ok)
              \<and> \<not> list_ex unresolved (replies_for rest
                     (filter needs_resolution (map content (drop (Suc i) ds)))))"
            by simp
          then show ?thesis using dr nr fg res
            by (auto simp: unresolved_pair strcmp_eq_0_iff)
        qed
      qed
    qed
  qed
qed

lemma replies_for_nonempty: "list_ex P (replies_for stream names) \<Longrightarrow> names \<noteq> []"
  by (cases names) auto

lemma needs_resolution_short:
  "length d < PORT_NUMBER_LENGTH \<Longrightarrow> needs_resolution d \<longleftrightarrow> \<not> valid_port d"
  by (simp add: needs_resolution_def is_unsigned_short_short)

text \<open>
  With every destination and every reply shorter than a port buffer, the loop returns when
  the connection takes one write for each name to resolve, and ends in a broken pipe when
  it takes fewer.
\<close>

lemma resolve_loop_defined:
  assumes "\<forall>d\<in>set (drop i ds). length (content d) < PORT_NUMBER_LENGTH
                                  \<and> capacity d = PORT_NUMBER_LENGTH"
    and "\<forall>p\<in>set (replies_for stream (filter needs_resolution (map content (drop i ds)))).
           \<forall>rep. snd p = Some rep \<longrightarrow> length rep < PORT_NUMBER_LENGTH"
  shows "resolve_loop w stream ds i ok =
           (if length (filter needs_resolution (map content (drop i ds))) \<le> w
            then Inr (fst (projr (resolve_loop w stream ds i ok)),
                      snd (projr (resolve_loop w stream ds i ok)))
            else Inl Broken_Pipe)"
  using assms
proof (induction w stream ds i ok rule: resolve_loop.induct)
  case (1 w stream ds i ok)
  show ?case
  proof (cases "i < length ds")
    case False
    then show ?thesis by (subst (1 2 3) resolve_loop.simps) simp
  next
    case True
    have dr: "drop i ds = ds ! i # drop (Suc i) ds" using True by (simp add: Cons_nth_drop_Suc)
    let ?name = "content (ds ! i)"
    have short: "length ?name < PORT_NUMBER_LENGTH" "capacity (ds ! i) = PORT_NUMBER_LENGTH"
      using "1.prems"(1) dr by simp_all
    have rest: "\<forall>d\<in>set (drop (Suc i) ds). length (content d) < PORT_NUMBER_LENGTH
                                  \<and> capacity d = PORT_NUMBER_LENGTH"
      using "1.prems"(1) dr by simp
    have ius: "is_unsigned_short ?name = Inr (valid_port ?name)"
      by (rule is_unsigned_short_short[OF short(1)])
    show ?thesis
    proof (cases "valid_port ?name")
      case vp: True
      then have port: "is_unsigned_short ?name = Inr True" using ius by simp
      then have nn: "\<not> needs_resolution ?name" by (simp add: needs_resolution_def)
      have unf: "resolve_loop w stream ds i ok = resolve_loop w stream ds (Suc i) ok"
        using True port by (subst resolve_loop.simps) simp
      have "resolve_loop w stream ds (Suc i) ok =
           (if length (filter needs_resolution (map content (drop (Suc i) ds))) \<le> w
            then Inr (fst (projr (resolve_loop w stream ds (Suc i) ok)),
                      snd (projr (resolve_loop w stream ds (Suc i) ok)))
            else Inl Broken_Pipe)"
        using "1.IH"(1)[OF True port refl rest] "1.prems"(2) dr nn by simp
      then show ?thesis unfolding unf using dr nn by simp
    next
      case False
      then have name: "is_unsigned_short ?name = Inr False" using ius by simp
      then have nr: "needs_resolution ?name" by (simp add: needs_resolution_def)
      show ?thesis
      proof (cases w)
        case 0
        then have "resolve_loop w stream ds i ok = Inl Broken_Pipe"
          using True name by (subst resolve_loop.simps) simp
        then show ?thesis using 0 dr nr by simp
      next
        case (Suc w')
        show ?thesis
        proof (cases "fgets RESPONSE_BUFFER_SIZE stream")
          case None
          have unf: "resolve_loop w stream ds i ok = resolve_loop w' stream ds (Suc i) False"
            using True name None Suc by (subst resolve_loop.simps) simp
          have "resolve_loop w' stream ds (Suc i) False =
             (if length (filter needs_resolution (map content (drop (Suc i) ds))) \<le> w'
              then Inr (fst (projr (resolve_loop w' stream ds (Suc i) False)),
                        snd (projr (resolve_loop w' stream ds (Suc i) False)))
              else Inl Broken_Pipe)"
            using "1.IH"(2)[OF True name refl Suc None rest] "1.prems"(2) dr nr None by simp
          then show ?thesis unfolding unf using dr nr Suc by simp
        next
          case (Some p)
          then obtain reply rst where fg: "fgets RESPONSE_BUFFER_SIZE stream = Some (reply, rst)"
            by (cases p) simp
          let ?r = "trim_newline (c_str reply)"
          have fits: "length ?r < PORT_NUMBER_LENGTH"
            using "1.prems"(2) dr nr fg by simp
          then have cp: "strcpy (capacity (ds ! i)) ?r = Inr ?r"
            using short(2) by (simp add: strcpy_def)
          let ?ds = "ds[i := (ds ! i)\<lparr>content := ?r\<rparr>]"
          let ?ok = "if strcmp ?r '';'' = 0 then False else ok"
          have dr': "drop (Suc i) ?ds = drop (Suc i) ds" by simp
          have unf: "resolve_loop w stream ds i ok = resolve_loop w' rst ?ds (Suc i) ?ok"
            using True name fg cp Suc by (subst resolve_loop.simps) simp
          have "resolve_loop w' rst ?ds (Suc i) ?ok =
             (if length (filter needs_resolution (map content (drop (Suc i) ?ds))) \<le> w'
              then Inr (fst (projr (resolve_loop w' rst ?ds (Suc i) ?ok)),
                        snd (projr (resolve_loop w' rst ?ds (Suc i) ?ok)))
              else Inl Broken_Pipe)"
            using "1.IH"(3)[OF True name refl Suc fg[unfolded prod.collapse] refl cp] rest
              "1.prems"(2) dr nr fg
            by (simp only: dr') simp
          then show ?thesis unfolding unf using dr nr Suc by (simp only: dr') simp
        qed
      qed
    qed
  qed
qed

lemma copy_destinations_short:
  "\<forall>d\<in>set args. length d < PORT_NUMBER_LENGTH \<Longrightarrow>
   copy_destinations args req
     = Inr (map (\<lambda>d. \<lparr>capacity = PORT_NUMBER_LENGTH, content = d\<rparr>) args,
            req \<or> list_ex needs_resolution args)"
proof (induction args arbitrary: req)
  case Nil
  then show ?case by simp
next
  case (Cons arg args)
  then have short: "length arg < PORT_NUMBER_LENGTH" by simp
  have ius: "is_unsigned_short arg = Inr (valid_port arg)"
    by (rule is_unsigned_short_short[OF short])
  show ?case
    using Cons short
    by (auto simp: ius strcpy_def string_or_port_size_def needs_resolution_short)
qed

lemma visit_destinations_result:
  assumes nonempty: "\<forall>k<length ds. visitable (net k (ds ! k))"
  shows "\<exists>st. visit_destinations net (malloc_string_array (length ds) junk) ds = Inr st
          \<and> connections st = ds
          \<and> (visitingSuccess st \<longleftrightarrow> (\<forall>k<length ds. net k (ds ! k) \<noteq> Refused))
          \<and> print_destination_info (destinationInfo st) (length ds)
              = concat (map (\<lambda>k. info_line (visit_reply (net k (ds ! k)))) [0 ..< length ds])"
proof -
  let ?st0 = "\<lparr>visitingSuccess = True,
               destinationInfo = malloc_string_array (length ds) junk,
               controlResponse = None, connections = []\<rparr>"
  have len0: "length (destinationInfo ?st0) = length ds" by (simp add: malloc_string_array_def)
  from visit_loop_replies[of ds net 0 ?st0] nonempty len0
  obtain st where st: "visit_loop net ds 0 ?st0 = Inr st"
    "destinationInfo st = map (\<lambda>k. visit_reply (net k (ds ! k))) [0 ..< length ds]"
    by auto
  from visit_loop_trace[OF st(1)]
  have tr: "connections st = ds"
    "visitingSuccess st \<longleftrightarrow> (\<forall>k<length ds. net k (ds ! k) \<noteq> Refused)"
    by simp_all
  have vd: "visit_destinations net (malloc_string_array (length ds) junk) ds = Inr st"
    using st(1) by (simp add: visit_destinations_def)
  have out: "print_destination_info (destinationInfo st) (length ds)
      = concat (map (\<lambda>k. info_line (visit_reply (net k (ds ! k)))) [0 ..< length ds])"
    using print_destination_info_lines[of "length ds" "destinationInfo st"] st(2)
    by (simp add: comp_def)
  show ?thesis using vd tr out by blast
qed

section \<open>Claims about the registry\<close>

text \<open>
  Within the sizes of the fields the first registration wins. In a table without an entry
  for \<open>n\<close>, once the line \<open>!n:a1\<close> has been accepted (it added an entry), then after
  any further lines whatever that the registry serves without a fault, among them add lines
  for \<open>n\<close> with another address, the query \<open>?n\<close> is answered \<open>a1\<close>; the table holds
  exactly one entry for \<open>n\<close>, the one first registered, and a later add line for \<open>n\<close>
  changes nothing and is not answered. The name and the addresses are C strings: they hold
  no NUL byte.
\<close>

theorem first_registration_wins:
  assumes wf: "entryCount m \<le> length (entries m)"
    and nl: "LF \<notin> set n" "LF \<notin> set a1"
    and nul: "NUL \<notin> set n" "NUL \<notin> set a1"
    and add1: "handle_command m (CHR ''!'' # n @ CHR '':'' # a1 @ [LF]) = Inr (m1, out1)"
    and accepted: "entryCount m1 = Suc (entryCount m)"
    and later: "serve m1 lines = Inr (m2, outs)"
  shows "handle_command m2 (CHR ''?'' # n @ [LF]) = Inr (m2, a1 @ [LF])
       \<and> filter (\<lambda>e. airportName e = n) (registry_table m2) = [\<lparr>airportName = n, portNumber = a1\<rparr>]
       \<and> (\<forall>a2 m3 out. LF \<notin> set a2 \<and> NUL \<notin> set a2
             \<and> handle_command m2 (CHR ''!'' # n @ CHR '':'' # a2 @ [LF]) = Inr (m3, out)
             \<longrightarrow> m3 = m2 \<and> out = [])"
proof -
  let ?e = "\<lparr>airportName = n, portNumber = a1\<rparr>"
  have "m1 \<noteq> m" using accepted by auto
  from accepted_add_line[OF wf nl nul add1 this]
  have acc: "n \<notin> airportName ` set (registry_table m)" "entryCount m < length (entries m)"
    "m1 = append_entry m ?e" by simp_all
  have "filter (\<lambda>e. airportName e = n) (registry_table m) = []"
    using acc(1) by (auto simp: filter_empty_conv)
  then have f1: "filter (\<lambda>e. airportName e = n) (registry_table m1) = [?e]"
    using acc by (simp add: registry_table_append_entry)
  have wf1: "entryCount m1 \<le> length (entries m1)"
    using handle_command_wf[OF wf add1] by simp
  from serve_keeps_entry[OF wf1 later f1]
  have wf2: "entryCount m2 \<le> length (entries m2)"
    and f2: "filter (\<lambda>e. airportName e = n) (registry_table m2) = [?e]" by simp_all
  have q: "handle_command m2 (CHR ''?'' # n @ [LF]) = Inr (m2, a1 @ [LF])"
    using query_line[OF wf2 nl(1) nul(1)] find_filter_single[OF f2] by simp
  have "?e \<in> set (filter (\<lambda>e. airportName e = n) (registry_table m2))" using f2 by simp
  then have present: "n \<in> airportName ` set (registry_table m2)" by force
  have again: "m3 = m2 \<and> out = []"
    if "LF \<notin> set a2" "NUL \<notin> set a2"
      "handle_command m2 (CHR ''!'' # n @ CHR '':'' # a2 @ [LF]) = Inr (m3, out)"
    for a2 m3 out
  proof (cases "m3 = m2")
    case True
    have "NUL \<notin> set (CHR ''!'' # n @ CHR '':'' # a2 @ [LF])" using nul(1) that(2) by simp
    from that(3)[unfolded handle_command_unfold[OF this]] have "out = []"
      by (auto simp: command_lexer_add[OF nl(1) that(1)] split: if_splits sum.splits)
    with True show ?thesis by simp
  next
    case False
    from accepted_add_line[OF wf2 nl(1) that(1) nul(1) that(2) that(3) False] present
    show ?thesis by simp
  qed
  show ?thesis using q f2 again by blast
qed

theorem first_registration_wins_witness:
  "entryCount (new_mapping \<lparr>airportName = [], portNumber = []\<rparr>)
      \<le> length (entries (new_mapping \<lparr>airportName = [], portNumber = []\<rparr>))
   \<and> LF \<notin> set ''BNE'' \<and> LF \<notin> set ''80''
   \<and> NUL \<notin> set ''BNE'' \<and> NUL \<notin> set ''80''
   \<and> handle_command (new_mapping \<lparr>airportName = [], portNumber = []\<rparr>) (''!BNE:80'' @ [LF])
       = Inr (append_entry (new_mapping \<lparr>airportName = [], portNumber = []\<rparr>)
                \<lparr>airportName = ''BNE'', portNumber = ''80''\<rparr>, [])
   \<and> entryCount (append_entry (new_mapping \<lparr>airportName = [], portNumber = []\<rparr>)
                \<lparr>airportName = ''BNE'', portNumber = ''80''\<rparr>)
       = Suc (entryCount (new_mapping \<lparr>airportName = [], portNumber = []\<rparr>))
   \<and> serve (append_entry (new_mapping \<lparr>airportName = [], portNumber = []\<rparr>)
                \<lparr>airportName = ''BNE'', portNumber = ''80''\<rparr>)
         [''!BNE:99'' @ [LF], ''!ADL:70'' @ [LF], ''@'' @ [LF]]
       = Inr (sort_mapping (append_entry (append_entry
                (new_mapping \<lparr>airportName = [], portNumber = []\<rparr>)
                \<lparr>airportName = ''BNE'', portNumber = ''80''\<rparr>)
                \<lparr>airportName = ''ADL'', portNumber = ''70''\<rparr>),
              [[], [], ''ADL:70'' @ [LF] @ ''BNE:80'' @ [LF]])
   \<and> handle_command (sort_mapping (append_entry (append_entry
                (new_mapping \<lparr>airportName = [], portNumber = []\<rparr>)
                \<lparr>airportName = ''BNE'', portNumber = ''80''\<rparr>)
                \<lparr>airportName = ''ADL'', portNumber = ''70''\<rparr>)) (''?BNE'' @ [LF])
       = Inr (sort_mapping (append_entry (append_entry
                (new_mapping \<lparr>airportName = [], portNumber = []\<rparr>)
                \<lparr>airportName = ''BNE'', portNumber = ''80''\<rparr>)
                \<lparr>airportName = ''ADL'', portNumber = ''70''\<rparr>), ''80'' @ [LF])"
proof -
  let ?m = "new_mapping \<lparr>airportName = [], portNumber = []\<rparr>"
  let ?m1 = "append_entry ?m \<lparr>airportName = ''BNE'', portNumber = ''80''\<rparr>"
  let ?m2 = "sort_mapping (append_entry ?m1 \<lparr>airportName = ''ADL'', portNumber = ''70''\<rparr>)"
  have wf: "entryCount ?m \<le> length (entries ?m)" by (rule wf_new_mapping)
  have n: "LF \<notin> set ''BNE''" and a: "LF \<notin> set ''80''" by simp_all
  have z: "NUL \<notin> set ''BNE''" "NUL \<notin> set ''80''" by simp_all
  have add1: "handle_command ?m (CHR ''!'' # ''BNE'' @ CHR '':'' # ''80'' @ [LF]) = Inr (?m1, [])"
    by code_simp
  have acc: "entryCount ?m1 = Suc (entryCount ?m)" by (simp add: append_entry_def)
  have later: "serve ?m1 [''!BNE:99'' @ [LF], ''!ADL:70'' @ [LF], ''@'' @ [LF]]
      = Inr (?m2, [[], [], ''ADL:70'' @ [LF] @ ''BNE:80'' @ [LF]])"
    by code_simp
  from first_registration_wins[OF wf n a z add1 acc later]
  have q: "handle_command ?m2 (CHR ''?'' # ''BNE'' @ [LF]) = Inr (?m2, ''80'' @ [LF])"
    by (rule conjunct1)
  have add1': "handle_command ?m (''!BNE:80'' @ [LF]) = Inr (?m1, [])" using add1 by simp
  have q': "handle_command ?m2 (''?BNE'' @ [LF]) = Inr (?m2, ''80'' @ [LF])" using q by simp
  show ?thesis by (intro conjI wf n a z add1' acc later q')
qed

text \<open>
  Claim C1 fails at the size of the name field. \<open>MAX_AIRPORT_ID_LENGTH\<close> is 490,
  documented as the maximum length of an airport name, and it is the size in bytes of the
  field \<open>airportName\<close>, which therefore holds 489 bytes and the terminator. The line
  \<open>!n:80\<close> with a name \<open>n\<close> of 490 bytes is 495 bytes long, so \<open>fgets\<close> delivers
  it whole into the buffer of 500 bytes; \<open>command_lexer\<close> classifies it as an add line,
  the port is valid, and \<open>strcpy\<close> then copies 491 bytes into the field of 490: the
  add, and with it any run that holds it, has no defined behaviour. No entry that answers
  \<open>?n\<close> with 80 is promised by the code.
\<close>

theorem long_name_registration_overflows:
  "length (replicate 490 CHR ''x'') = MAX_AIRPORT_ID_LENGTH
   \<and> fgets COMMAND_BUFFER_SIZE (CHR ''!'' # replicate 490 CHR ''x'' @ '':80'' @ [LF])
       = Some (CHR ''!'' # replicate 490 CHR ''x'' @ '':80'' @ [LF], [])
   \<and> command_lexer (c_str (CHR ''!'' # replicate 490 CHR ''x'' @ '':80'' @ [LF]))
       = (CHR ''!'' # replicate 490 CHR ''x'' @ '':80'', ADD_MAPPING)
   \<and> is_unsigned_short ''80'' = Inr True
   \<and> strcpy MAX_AIRPORT_ID_LENGTH (replicate 490 CHR ''x'') = Inl Buffer_Overflow
   \<and> add_map_entry (new_mapping \<lparr>airportName = [], portNumber = []\<rparr>)
        (CHR ''!'' # replicate 490 CHR ''x'' @ '':80'') = Inl Buffer_Overflow
   \<and> serve (new_mapping \<lparr>airportName = [], portNumber = []\<rparr>)
        [CHR ''!'' # replicate 490 CHR ''x'' @ '':80'' @ [LF],
         CHR ''!'' # replicate 490 CHR ''x'' @ '':81'' @ [LF],
         CHR ''?'' # replicate 490 CHR ''x'' @ [LF]] = Inl Buffer_Overflow"
proof -
  let ?n = "replicate 490 CHR ''x''"
  let ?m = "new_mapping \<lparr>airportName = [], portNumber = []\<rparr>"
  have len: "length ?n = MAX_AIRPORT_ID_LENGTH" by (simp add: MAX_AIRPORT_ID_LENGTH_def)
  have lf: "LF \<notin> set ?n" "LF \<notin> set ''80''" by simp_all
  have nul: "NUL \<notin> set (CHR ''!'' # ?n @ CHR '':'' # ''80'' @ [LF])" by simp
  have "LF \<notin> set (CHR ''!'' # ?n @ '':80'')" by simp
  moreover have "length (CHR ''!'' # ?n @ '':80'') < COMMAND_BUFFER_SIZE - 1"
    by (simp add: COMMAND_BUFFER_SIZE_def)
  ultimately have "fgets COMMAND_BUFFER_SIZE ((CHR ''!'' # ?n @ '':80'') @ LF # [])
      = Some ((CHR ''!'' # ?n @ '':80'') @ [LF], [])" by (rule fgets_line)
  then have fg: "fgets COMMAND_BUFFER_SIZE (CHR ''!'' # ?n @ '':80'' @ [LF])
      = Some (CHR ''!'' # ?n @ '':80'' @ [LF], [])" by simp
  have lex: "command_lexer (CHR ''!'' # ?n @ CHR '':'' # ''80'' @ [LF])
      = (CHR ''!'' # ?n @ CHR '':'' # ''80'', ADD_MAPPING)"
    using command_lexer_add[OF lf] by simp
  then have lex': "command_lexer (c_str (CHR ''!'' # ?n @ '':80'' @ [LF]))
      = (CHR ''!'' # ?n @ '':80'', ADD_MAPPING)"
    using c_str_id[OF nul] by simp
  have port: "is_unsigned_short ''80'' = Inr True" by code_simp
  have cp: "strcpy MAX_AIRPORT_ID_LENGTH ?n = Inl Buffer_Overflow"
    by (simp add: strcpy_def MAX_AIRPORT_ID_LENGTH_def)
  have "add_map_entry ?m (CHR ''!'' # ?n @ CHR '':'' # ''80'') = Inl Buffer_Overflow"
    using add_map_entry_parts[of ?n "''80''" ?m, OF _ _ _ _ wf_new_mapping] port
    by (simp add: MAX_AIRPORT_ID_LENGTH_def)
  then have add: "add_map_entry ?m (CHR ''!'' # ?n @ '':80'') = Inl Buffer_Overflow" by simp
  have "handle_command ?m (CHR ''!'' # ?n @ '':80'' @ [LF]) = Inl Buffer_Overflow"
    using lex' add by (simp add: handle_command_def)
  then have srv: "serve ?m [CHR ''!'' # ?n @ '':80'' @ [LF], CHR ''!'' # ?n @ '':81'' @ [LF],
         CHR ''?'' # ?n @ [LF]] = Inl Buffer_Overflow" by simp
  show ?thesis by (intro conjI len fg lex' port cp add srv)
qed

text \<open>
  Within the sizes of the fields the query is answered as specified. A query line, read as
  the registry reads it (up to its first NUL byte or newline) as \<open>?name\<close>, is answered
  with the address of the first entry of the table whose name is \<open>name\<close>, followed by a
  newline, and with the line \<open>;\<close> when there is none; the table is left as it was. In
  every table the registry reaches from its start without a fault the names are distinct, so
  the first entry is the only one. A query right after an accepted add of \<open>n\<close> with
  address \<open>a\<close> is answered \<open>a\<close>, and after lines served without a fault a query for
  a name for which no add line was received is answered \<open>;\<close>.
\<close>

theorem query_postcondition:
  "(entryCount m \<le> length (entries m) \<and> trim_newline (c_str line) = CHR ''?'' # name \<longrightarrow>
      handle_command m line =
        Inr (m, case find (\<lambda>e. airportName e = name) (registry_table m) of
                  None \<Rightarrow> [CHR '';'', LF]
                | Some e \<Rightarrow> portNumber e @ [LF]))
   \<and> (serve (new_mapping junk) lines = Inr (m', outs) \<longrightarrow>
        entryCount m' \<le> length (entries m') \<and> distinct (map airportName (registry_table m')))
   \<and> (entryCount m \<le> length (entries m) \<and> LF \<notin> set n \<and> LF \<notin> set a
        \<and> NUL \<notin> set n \<and> NUL \<notin> set a
        \<and> handle_command m (CHR ''!'' # n @ CHR '':'' # a @ [LF]) = Inr (madd, oadd)
        \<and> entryCount madd = Suc (entryCount m) \<longrightarrow>
        handle_command madd (CHR ''?'' # n @ [LF]) = Inr (madd, a @ [LF]))
   \<and> (serve (new_mapping junk) lines = Inr (m', outs) \<and> LF \<notin> set n \<and> NUL \<notin> set n
        \<and> (\<forall>l\<in>set lines. take (length n + 2) l \<noteq> CHR ''!'' # n @ '':'') \<longrightarrow>
        handle_command m' (CHR ''?'' # n @ [LF]) = Inr (m', [CHR '';'', LF]))"
proof (intro conjI impI)
  assume h: "entryCount m \<le> length (entries m) \<and> trim_newline (c_str line) = CHR ''?'' # name"
  have "LF \<notin> set (trim_newline (c_str line))" "NUL \<notin> set (trim_newline (c_str line))"
    by (rule LF_notin_trim_newline, rule NUL_notin_trim_newline_c_str)
  then have nm: "LF \<notin> set name" "NUL \<notin> set name" using h by simp_all
  have "handle_command m line = handle_command m (CHR ''?'' # name @ [LF])"
    using handle_command_text[of m line] h by simp
  then show "handle_command m line =
        Inr (m, case find (\<lambda>e. airportName e = name) (registry_table m) of
                  None \<Rightarrow> [CHR '';'', LF]
                | Some e \<Rightarrow> portNumber e @ [LF])"
    using query_line[OF _ nm] h by simp
next
  assume s: "serve (new_mapping junk) lines = Inr (m', outs)"
  show "entryCount m' \<le> length (entries m')"
    using serve_wf[OF wf_new_mapping s] by simp
  show "distinct (map airportName (registry_table m'))"
    using serve_distinct[OF wf_new_mapping s] by simp
next
  assume h: "entryCount m \<le> length (entries m) \<and> LF \<notin> set n \<and> LF \<notin> set a
        \<and> NUL \<notin> set n \<and> NUL \<notin> set a
        \<and> handle_command m (CHR ''!'' # n @ CHR '':'' # a @ [LF]) = Inr (madd, oadd)
        \<and> entryCount madd = Suc (entryCount m)"
  then have "madd \<noteq> m" by auto
  with h accepted_add_line[of m n a madd oadd]
  have acc: "entryCount m < length (entries m)"
    "madd = append_entry m \<lparr>airportName = n, portNumber = a\<rparr>"
    "n \<notin> airportName ` set (registry_table m)" by simp_all
  have wf1: "entryCount madd \<le> length (entries madd)" using acc by (simp add: append_entry_def)
  have "find (\<lambda>e. airportName e = n) (registry_table m) = None"
    using acc(3) by (auto simp: find_None_iff)
  then have "find (\<lambda>e. airportName e = n) (registry_table madd)
      = Some \<lparr>airportName = n, portNumber = a\<rparr>"
    using acc by (simp add: registry_table_append_entry find_append_None)
  then show "handle_command madd (CHR ''?'' # n @ [LF]) = Inr (madd, a @ [LF])"
    using query_line[OF wf1, of n] h by simp
next
  assume h: "serve (new_mapping junk) lines = Inr (m', outs) \<and> LF \<notin> set n \<and> NUL \<notin> set n
        \<and> (\<forall>l\<in>set lines. take (length n + 2) l \<noteq> CHR ''!'' # n @ '':'')"
  then have s: "serve (new_mapping junk) lines = Inr (m', outs)" by simp
  have wf': "entryCount m' \<le> length (entries m')"
    using serve_wf[OF wf_new_mapping s] by simp
  have "n \<notin> airportName ` set (registry_table m')"
    using serve_names[OF wf_new_mapping s] h by auto
  then have "find (\<lambda>e. airportName e = n) (registry_table m') = None"
    by (auto simp: find_None_iff)
  then show "handle_command m' (CHR ''?'' # n @ [LF]) = Inr (m', [CHR '';'', LF])"
    using query_line[OF wf', of n] h by simp
qed

theorem query_postcondition_witness:
  "entryCount (append_entry (new_mapping \<lparr>airportName = [], portNumber = []\<rparr>)
                \<lparr>airportName = ''BNE'', portNumber = ''80''\<rparr>)
     \<le> length (entries (append_entry (new_mapping \<lparr>airportName = [], portNumber = []\<rparr>)
                \<lparr>airportName = ''BNE'', portNumber = ''80''\<rparr>))
   \<and> LF \<notin> set ''BNE'' \<and> LF \<notin> set ''80'' \<and> LF \<notin> set ''SYD''
   \<and> NUL \<notin> set ''BNE'' \<and> NUL \<notin> set ''80'' \<and> NUL \<notin> set ''SYD''
   \<and> serve (new_mapping \<lparr>airportName = [], portNumber = []\<rparr>) [''!BNE:80'' @ [LF]]
       = Inr (append_entry (new_mapping \<lparr>airportName = [], portNumber = []\<rparr>)
                \<lparr>airportName = ''BNE'', portNumber = ''80''\<rparr>, [[]])
   \<and> distinct (map airportName (registry_table
         (append_entry (new_mapping \<lparr>airportName = [], portNumber = []\<rparr>)
                \<lparr>airportName = ''BNE'', portNumber = ''80''\<rparr>)))
   \<and> handle_command (new_mapping \<lparr>airportName = [], portNumber = []\<rparr>) (''!BNE:80'' @ [LF])
       = Inr (append_entry (new_mapping \<lparr>airportName = [], portNumber = []\<rparr>)
                \<lparr>airportName = ''BNE'', portNumber = ''80''\<rparr>, [])
   \<and> entryCount (append_entry (new_mapping \<lparr>airportName = [], portNumber = []\<rparr>)
                \<lparr>airportName = ''BNE'', portNumber = ''80''\<rparr>)
       = Suc (entryCount (new_mapping \<lparr>airportName = [], portNumber = []\<rparr>))
   \<and> handle_command (append_entry (new_mapping \<lparr>airportName = [], portNumber = []\<rparr>)
                \<lparr>airportName = ''BNE'', portNumber = ''80''\<rparr>) (''?BNE'' @ [LF])
       = Inr (append_entry (new_mapping \<lparr>airportName = [], portNumber = []\<rparr>)
                \<lparr>airportName = ''BNE'', portNumber = ''80''\<rparr>, ''80'' @ [LF])
   \<and> take (length ''SYD'' + 2) (''!BNE:80'' @ [LF]) \<noteq> ''!SYD:''
   \<and> handle_command (append_entry (new_mapping \<lparr>airportName = [], portNumber = []\<rparr>)
                \<lparr>airportName = ''BNE'', portNumber = ''80''\<rparr>) (''?SYD'' @ [LF])
       = Inr (append_entry (new_mapping \<lparr>airportName = [], portNumber = []\<rparr>)
                \<lparr>airportName = ''BNE'', portNumber = ''80''\<rparr>, '';'' @ [LF])"
proof -
  let ?A = "new_mapping \<lparr>airportName = [], portNumber = []\<rparr>"
  let ?B = "append_entry ?A \<lparr>airportName = ''BNE'', portNumber = ''80''\<rparr>"
  note T = query_postcondition[where m = ?A and name = "''BNE''" and line = "''?BNE'' @ [LF]"
      and junk = "\<lparr>airportName = [], portNumber = []\<rparr>" and lines = "[''!BNE:80'' @ [LF]]"
      and m' = ?B and outs = "[[]]" and n = "''BNE''" and a = "''80''" and madd = ?B
      and oadd = "[]"]
  note U = query_postcondition[where m = ?A and name = "''BNE''" and line = "''?BNE'' @ [LF]"
      and junk = "\<lparr>airportName = [], portNumber = []\<rparr>" and lines = "[''!BNE:80'' @ [LF]]"
      and m' = ?B and outs = "[[]]" and n = "''SYD''" and a = "''80''" and madd = ?B
      and oadd = "[]"]
  note V = query_postcondition[where m = ?B and name = "''BNE''" and line = "''?BNE'' @ [LF]"
      and junk = "\<lparr>airportName = [], portNumber = []\<rparr>" and lines = "[''!BNE:80'' @ [LF]]"
      and m' = ?B and outs = "[[]]" and n = "''SYD''" and a = "''80''" and madd = ?B
      and oadd = "[]"]
  have wf: "entryCount ?A \<le> length (entries ?A)" by (rule wf_new_mapping)
  have wf1: "entryCount ?B \<le> length (entries ?B)" by code_simp
  have lf: "LF \<notin> set ''BNE''" "LF \<notin> set ''80''" "LF \<notin> set ''SYD''" by simp_all
  have z: "NUL \<notin> set ''BNE''" "NUL \<notin> set ''80''" "NUL \<notin> set ''SYD''" by simp_all
  have qtext: "trim_newline (c_str (''?BNE'' @ [LF])) = CHR ''?'' # ''BNE''" by code_simp
  have s: "serve ?A [''!BNE:80'' @ [LF]] = Inr (?B, [[]])" by code_simp
  have add: "handle_command ?A (CHR ''!'' # ''BNE'' @ CHR '':'' # ''80'' @ [LF]) = Inr (?B, [])"
    by code_simp
  have acc: "entryCount ?B = Suc (entryCount ?A)" by (simp add: append_entry_def)
  have never: "\<forall>l\<in>set [''!BNE:80'' @ [LF]]. take (length ''SYD'' + 2) l \<noteq> CHR ''!'' # ''SYD'' @ '':''"
    by simp
  have found: "(case find (\<lambda>e. airportName e = ''BNE'') (registry_table ?B) of
                  None \<Rightarrow> [CHR '';'', LF] | Some e \<Rightarrow> portNumber e @ [LF]) = ''80'' @ [LF]"
    by code_simp
  have d: "distinct (map airportName (registry_table ?B))"
    using T s by blast
  have rt: "handle_command ?B (CHR ''?'' # ''BNE'' @ [LF]) = Inr (?B, ''80'' @ [LF])"
    using T wf lf z add acc by blast
  have q: "handle_command ?B (''?BNE'' @ [LF])
      = Inr (?B, case find (\<lambda>e. airportName e = ''BNE'') (registry_table ?B) of
                  None \<Rightarrow> [CHR '';'', LF] | Some e \<Rightarrow> portNumber e @ [LF])"
    using V wf1 qtext by blast
  have sentinel: "handle_command ?B (CHR ''?'' # ''SYD'' @ [LF]) = Inr (?B, [CHR '';'', LF])"
    using U s lf z never by blast
  have 1: "handle_command ?A (''!BNE:80'' @ [LF]) = Inr (?B, [])" using add by simp
  have 2: "handle_command ?B (''?BNE'' @ [LF]) = Inr (?B, ''80'' @ [LF])" using q found by simp
  have 3: "take (length ''SYD'' + 2) (''!BNE:80'' @ [LF]) \<noteq> ''!SYD:''" by simp
  have 4: "handle_command ?B (''?SYD'' @ [LF]) = Inr (?B, '';'' @ [LF])" using sentinel by simp
  show ?thesis by (intro conjI wf1 lf z s d 1 acc 2 3 4)
qed

text \<open>
  Claim C2 fails at the size of the name field, by the defect that also breaks claim C1.
  For a name \<open>n\<close> of 490 bytes the add line \<open>!n:80\<close> is classified as an add line and
  its port is valid, and \<open>strcpy\<close> writes the 491 bytes of the name and its terminator
  into the 490 bytes of \<open>airportName\<close>. Neither the round trip (the query \<open>?n\<close> after
  this add) nor the sentinel (the query for the name \<open>n\<close> followed by \<open>80\<close>, for which
  no add line was received) is a run with defined behaviour: the code promises neither
  the answer 80 to the first nor the answer \<open>;\<close> to the second.
\<close>

theorem long_name_round_trip_overflows:
  "handle_command (new_mapping \<lparr>airportName = [], portNumber = []\<rparr>)
       (CHR ''!'' # replicate 490 CHR ''x'' @ '':80'' @ [LF]) = Inl Buffer_Overflow
   \<and> serve (new_mapping \<lparr>airportName = [], portNumber = []\<rparr>)
        [CHR ''!'' # replicate 490 CHR ''x'' @ '':80'' @ [LF],
         CHR ''?'' # replicate 490 CHR ''x'' @ [LF]] = Inl Buffer_Overflow
   \<and> serve (new_mapping \<lparr>airportName = [], portNumber = []\<rparr>)
        [CHR ''!'' # replicate 490 CHR ''x'' @ '':80'' @ [LF],
         CHR ''?'' # replicate 490 CHR ''x'' @ ''80'' @ [LF]] = Inl Buffer_Overflow
   \<and> take (length (replicate 490 CHR ''x'' @ ''80'') + 2)
         (CHR ''!'' # replicate 490 CHR ''x'' @ '':80'' @ [LF])
       \<noteq> CHR ''!'' # (replicate 490 CHR ''x'' @ ''80'') @ '':''
   \<and> length (CHR ''!'' # replicate 490 CHR ''x'' @ '':80'' @ [LF]) < COMMAND_BUFFER_SIZE"
proof -
  let ?n = "replicate 490 CHR ''x''"
  let ?m = "new_mapping \<lparr>airportName = [], portNumber = []\<rparr>"
  have lf: "LF \<notin> set ?n" "LF \<notin> set ''80''" by simp_all
  have nul: "NUL \<notin> set (CHR ''!'' # ?n @ CHR '':'' # ''80'' @ [LF])" by simp
  have lex: "command_lexer (CHR ''!'' # ?n @ CHR '':'' # ''80'' @ [LF])
      = (CHR ''!'' # ?n @ CHR '':'' # ''80'', ADD_MAPPING)"
    using command_lexer_add[OF lf] by simp
  have port: "is_unsigned_short ''80'' = Inr True" by code_simp
  have add: "add_map_entry ?m (CHR ''!'' # ?n @ CHR '':'' # ''80'') = Inl Buffer_Overflow"
    using add_map_entry_parts[of ?n "''80''" ?m, OF _ _ _ _ wf_new_mapping] port
    by (simp add: MAX_AIRPORT_ID_LENGTH_def)
  have "handle_command ?m (CHR ''!'' # ?n @ CHR '':'' # ''80'' @ [LF]) = Inl Buffer_Overflow"
    unfolding handle_command_unfold[OF nul] using lex add by simp
  then have hc: "handle_command ?m (CHR ''!'' # ?n @ '':80'' @ [LF]) = Inl Buffer_Overflow"
    by simp
  have s1: "serve ?m [CHR ''!'' # ?n @ '':80'' @ [LF], CHR ''?'' # ?n @ [LF]]
      = Inl Buffer_Overflow" using hc by simp
  have s2: "serve ?m [CHR ''!'' # ?n @ '':80'' @ [LF], CHR ''?'' # ?n @ ''80'' @ [LF]]
      = Inl Buffer_Overflow" using hc by simp
  have "(CHR ''!'' # ?n @ '':80'' @ [LF]) ! 491 = CHR '':''"
    by (simp add: nth_Cons' nth_append)
  moreover have "(CHR ''!'' # (?n @ ''80'') @ '':'') ! 491 = CHR ''8''"
    by (simp add: nth_Cons' nth_append)
  moreover have "take (length (?n @ ''80'') + 2) (CHR ''!'' # ?n @ '':80'' @ [LF]) ! 491
      = (CHR ''!'' # ?n @ '':80'' @ [LF]) ! 491"
    by (simp add: nth_append nth_Cons')
  ultimately have never: "take (length (?n @ ''80'') + 2) (CHR ''!'' # ?n @ '':80'' @ [LF])
      \<noteq> CHR ''!'' # (?n @ ''80'') @ '':''"
    by auto
  have len: "length (CHR ''!'' # ?n @ '':80'' @ [LF]) < COMMAND_BUFFER_SIZE"
    by (simp add: COMMAND_BUFFER_SIZE_def)
  show ?thesis by (intro conjI hc s1 s2 never len)
qed

text \<open>
  Claim C4, as amended. The registry reads a line up to its first NUL byte or newline. A
  line that reads \<open>!name:address\<close>, with a name shorter than the 490 bytes of the name
  field and an address shorter than the 6 bytes of the port field, received while the
  array has a free slot, writes the entry (name, address) into the next slot if and only if
  the name is not empty and holds no colon and no carriage return, the address is a decimal
  number in (0, 65535], and the table has no entry for the name; otherwise the table is
  unchanged. A line starting with \<open>!\<close> that reads with no colon or more than one, a colon
  right after the \<open>!\<close>, a colon at its end or an embedded carriage return leaves the
  table unchanged, and so does an add line whose address is not numeric, is zero, or is a
  number above 65535 that fits an int. None of these lines is answered. No other byte makes
  a line malformed: a tab, like any control character other than NUL, carriage return and
  newline, is a byte of the name.
\<close>

theorem add_acceptance:
  "(trim_newline (c_str line) = CHR ''!'' # n @ CHR '':'' # a
      \<and> length n < MAX_AIRPORT_ID_LENGTH \<and> length a < PORT_NUMBER_LENGTH
      \<and> entryCount m < length (entries m) \<longrightarrow>
      handle_command m line =
        Inr (if name_ok n \<and> valid_port a \<and> n \<notin> airportName ` set (registry_table m)
             then append_entry m \<lparr>airportName = n, portNumber = a\<rparr> else m, []))
   \<and> (line \<noteq> [] \<and> hd line = CHR ''!'' \<and> add_line_malformed (trim_newline (c_str line)) \<longrightarrow>
        handle_command m line = Inr (m, []))
   \<and> (entryCount m \<le> length (entries m)
        \<and> trim_newline (c_str line) = CHR ''!'' # n @ CHR '':'' # a
        \<and> (\<not> list_all isdigit a \<or> decimal a = 0
            \<or> (65535 < decimal a \<and> decimal a \<le> INT_MAX)) \<longrightarrow>
        handle_command m line = Inr (m, []))"
proof (intro conjI impI)
  assume h: "trim_newline (c_str line) = CHR ''!'' # n @ CHR '':'' # a
      \<and> length n < MAX_AIRPORT_ID_LENGTH \<and> length a < PORT_NUMBER_LENGTH
      \<and> entryCount m < length (entries m)"
  have "LF \<notin> set (trim_newline (c_str line))" "NUL \<notin> set (trim_newline (c_str line))"
    by (rule LF_notin_trim_newline, rule NUL_notin_trim_newline_c_str)
  then have lf: "LF \<notin> set n" "LF \<notin> set a"
    and nul: "NUL \<notin> set (CHR ''!'' # n @ CHR '':'' # a @ [LF])"
    using h by simp_all
  have "handle_command m line = handle_command m (CHR ''!'' # n @ CHR '':'' # a @ [LF])"
    using handle_command_text[of m line] h by simp
  then show "handle_command m line =
        Inr (if name_ok n \<and> valid_port a \<and> n \<notin> airportName ` set (registry_table m)
             then append_entry m \<lparr>airportName = n, portNumber = a\<rparr> else m, [])"
    using handle_command_add_line[OF lf _ _ _ nul, of m] h
    unfolding append_entry_def by simp
next
  assume "line \<noteq> [] \<and> hd line = CHR ''!'' \<and> add_line_malformed (trim_newline (c_str line))"
  then show "handle_command m line = Inr (m, [])"
    using handle_command_malformed[of line m] by blast
next
  assume h: "entryCount m \<le> length (entries m)
        \<and> trim_newline (c_str line) = CHR ''!'' # n @ CHR '':'' # a
        \<and> (\<not> list_all isdigit a \<or> decimal a = 0
            \<or> (65535 < decimal a \<and> decimal a \<le> INT_MAX))"
  have "LF \<notin> set (trim_newline (c_str line))" "NUL \<notin> set (trim_newline (c_str line))"
    by (rule LF_notin_trim_newline, rule NUL_notin_trim_newline_c_str)
  then have lf: "LF \<notin> set n" "LF \<notin> set a" and nul: "NUL \<notin> set n" "NUL \<notin> set a"
    using h by simp_all
  have "handle_command m line = handle_command m (CHR ''!'' # n @ CHR '':'' # a @ [LF])"
    using handle_command_text[of m line] h by simp
  then show "handle_command m line = Inr (m, [])"
    using handle_command_invalid_port[OF _ lf nul, of m] h by simp
qed

theorem add_acceptance_witness:
  "trim_newline (c_str (''!BNE:80'' @ [LF])) = CHR ''!'' # ''BNE'' @ CHR '':'' # ''80''
   \<and> length ''BNE'' < MAX_AIRPORT_ID_LENGTH \<and> length ''80'' < PORT_NUMBER_LENGTH
   \<and> entryCount (new_mapping \<lparr>airportName = [], portNumber = []\<rparr>)
        < length (entries (new_mapping \<lparr>airportName = [], portNumber = []\<rparr>))
   \<and> name_ok ''BNE'' \<and> valid_port ''80''
   \<and> ''BNE'' \<notin> airportName ` set (registry_table (new_mapping \<lparr>airportName = [], portNumber = []\<rparr>))
   \<and> handle_command (new_mapping \<lparr>airportName = [], portNumber = []\<rparr>) (''!BNE:80'' @ [LF])
       = Inr (append_entry (new_mapping \<lparr>airportName = [], portNumber = []\<rparr>)
                \<lparr>airportName = ''BNE'', portNumber = ''80''\<rparr>, [])
   \<and> trim_newline (c_str ([CHR ''!'', CHR ''a'', CHR '':'', CHR ''8'', NUL, CHR ''0'', LF]))
       = CHR ''!'' # ''a'' @ CHR '':'' # ''8''
   \<and> length ''a'' < MAX_AIRPORT_ID_LENGTH \<and> length ''8'' < PORT_NUMBER_LENGTH
   \<and> name_ok ''a'' \<and> valid_port ''8''
   \<and> ''a'' \<notin> airportName ` set (registry_table (new_mapping \<lparr>airportName = [], portNumber = []\<rparr>))
   \<and> handle_command (new_mapping \<lparr>airportName = [], portNumber = []\<rparr>)
        [CHR ''!'', CHR ''a'', CHR '':'', CHR ''8'', NUL, CHR ''0'', LF]
       = Inr (append_entry (new_mapping \<lparr>airportName = [], portNumber = []\<rparr>)
                \<lparr>airportName = ''a'', portNumber = ''8''\<rparr>, [])
   \<and> ''!BNE80'' @ [LF] \<noteq> [] \<and> hd (''!BNE80'' @ [LF]) = CHR ''!''
   \<and> add_line_malformed (trim_newline (c_str (''!BNE80'' @ [LF])))
   \<and> handle_command (new_mapping \<lparr>airportName = [], portNumber = []\<rparr>) (''!BNE80'' @ [LF])
       = Inr (new_mapping \<lparr>airportName = [], portNumber = []\<rparr>, [])
   \<and> hd [CHR ''!'', CHR ''a'', NUL, CHR ''b'', CHR '':'', CHR ''8'', CHR ''0'', LF] = CHR ''!''
   \<and> add_line_malformed
        (trim_newline (c_str [CHR ''!'', CHR ''a'', NUL, CHR ''b'', CHR '':'', CHR ''8'', CHR ''0'', LF]))
   \<and> handle_command (new_mapping \<lparr>airportName = [], portNumber = []\<rparr>)
        [CHR ''!'', CHR ''a'', NUL, CHR ''b'', CHR '':'', CHR ''8'', CHR ''0'', LF]
       = Inr (new_mapping \<lparr>airportName = [], portNumber = []\<rparr>, [])
   \<and> entryCount (new_mapping \<lparr>airportName = [], portNumber = []\<rparr>)
        \<le> length (entries (new_mapping \<lparr>airportName = [], portNumber = []\<rparr>))
   \<and> trim_newline (c_str (''!BNE:70000'' @ [LF])) = CHR ''!'' # ''BNE'' @ CHR '':'' # ''70000''
   \<and> 65535 < decimal ''70000'' \<and> decimal ''70000'' \<le> INT_MAX
   \<and> handle_command (new_mapping \<lparr>airportName = [], portNumber = []\<rparr>) (''!BNE:70000'' @ [LF])
       = Inr (new_mapping \<lparr>airportName = [], portNumber = []\<rparr>, [])"
proof -
  let ?A = "new_mapping \<lparr>airportName = [], portNumber = []\<rparr>"
  let ?nulport = "[CHR ''!'', CHR ''a'', CHR '':'', CHR ''8'', NUL, CHR ''0'', LF]"
  let ?nulname = "[CHR ''!'', CHR ''a'', NUL, CHR ''b'', CHR '':'', CHR ''8'', CHR ''0'', LF]"
  note T = add_acceptance[where n = "''BNE''" and a = "''80''" and m = ?A
      and line = "''!BNE:80'' @ [LF]"]
  note P = add_acceptance[where n = "''a''" and a = "''8''" and m = ?A and line = ?nulport]
  note M = add_acceptance[where n = "''BNE''" and a = "''80''" and m = ?A
      and line = "''!BNE80'' @ [LF]"]
  note N = add_acceptance[where n = "''BNE''" and a = "''80''" and m = ?A and line = ?nulname]
  note U = add_acceptance[where n = "''BNE''" and a = "''70000''" and m = ?A
      and line = "''!BNE:70000'' @ [LF]"]
  have t1: "trim_newline (c_str (''!BNE:80'' @ [LF])) = CHR ''!'' # ''BNE'' @ CHR '':'' # ''80''"
    by code_simp
  have len: "length ''BNE'' < MAX_AIRPORT_ID_LENGTH" "length ''80'' < PORT_NUMBER_LENGTH"
    by (simp_all add: MAX_AIRPORT_ID_LENGTH_def PORT_NUMBER_LENGTH_def)
  have slot: "entryCount ?A < length (entries ?A)"
    by (simp add: new_mapping_def MAX_MAP_ENTRIES_def)
  have wf: "entryCount ?A \<le> length (entries ?A)" by (rule wf_new_mapping)
  have ok: "name_ok ''BNE''" by (simp add: name_ok_def)
  have vp: "valid_port ''80''" by code_simp
  have absent: "''BNE'' \<notin> airportName ` set (registry_table ?A)" by simp
  have r1: "handle_command ?A (''!BNE:80'' @ [LF])
      = Inr (append_entry ?A \<lparr>airportName = ''BNE'', portNumber = ''80''\<rparr>, [])"
    using T t1 len slot ok vp absent by (simp only: if_True simp_thms)
  have t2: "trim_newline (c_str ?nulport) = CHR ''!'' # ''a'' @ CHR '':'' # ''8''" by code_simp
  have len2: "length ''a'' < MAX_AIRPORT_ID_LENGTH" "length ''8'' < PORT_NUMBER_LENGTH"
    by (simp_all add: MAX_AIRPORT_ID_LENGTH_def PORT_NUMBER_LENGTH_def)
  have ok2: "name_ok ''a''" by (simp add: name_ok_def)
  have vp2: "valid_port ''8''" by code_simp
  have absent2: "''a'' \<notin> airportName ` set (registry_table ?A)" by simp
  have r2: "handle_command ?A ?nulport
      = Inr (append_entry ?A \<lparr>airportName = ''a'', portNumber = ''8''\<rparr>, [])"
    using P t2 len2 slot ok2 vp2 absent2 by (simp only: if_True simp_thms)
  have ne: "''!BNE80'' @ [LF] \<noteq> []" "hd (''!BNE80'' @ [LF]) = CHR ''!''" by simp_all
  have mal: "add_line_malformed (trim_newline (c_str (''!BNE80'' @ [LF])))" by code_simp
  have r3: "handle_command ?A (''!BNE80'' @ [LF]) = Inr (?A, [])"
    using M ne mal by blast
  have ne4: "?nulname \<noteq> []" "hd ?nulname = CHR ''!''" by simp_all
  have mal4: "add_line_malformed (trim_newline (c_str ?nulname))" by code_simp
  have r4: "handle_command ?A ?nulname = Inr (?A, [])"
    using N ne4 mal4 by blast
  have t5: "trim_newline (c_str (''!BNE:70000'' @ [LF]))
      = CHR ''!'' # ''BNE'' @ CHR '':'' # ''70000''" by code_simp
  have big: "65535 < decimal ''70000''" by code_simp
  have fits: "decimal ''70000'' \<le> INT_MAX" by code_simp
  have r5: "handle_command ?A (''!BNE:70000'' @ [LF]) = Inr (?A, [])"
    using U wf t5 big fits by blast
  show ?thesis
    by (intro conjI t1 len slot ok vp absent r1 t2 len2 ok2 vp2 absent2 r2 ne mal r3
        ne4(2) mal4 r4 wf t5 big fits r5)
qed

text \<open>
  Claim C4 as stated fails for embedded control characters: a name that holds a tab is
  accepted and the table changes.
\<close>

theorem add_rejects_control_characters_counterexample:
  "handle_command (new_mapping \<lparr>airportName = [], portNumber = []\<rparr>)
       ([CHR ''!'', CHR ''a'', CHR 0x09, CHR ''b'', CHR '':'', CHR ''8'', CHR ''0'', LF])
     = Inr (append_entry (new_mapping \<lparr>airportName = [], portNumber = []\<rparr>)
              \<lparr>airportName = [CHR ''a'', CHR 0x09, CHR ''b''], portNumber = ''80''\<rparr>, [])
   \<and> registry_table (new_mapping \<lparr>airportName = [], portNumber = []\<rparr>) = []
   \<and> registry_table (append_entry (new_mapping \<lparr>airportName = [], portNumber = []\<rparr>)
              \<lparr>airportName = [CHR ''a'', CHR 0x09, CHR ''b''], portNumber = ''80''\<rparr>)
       = [\<lparr>airportName = [CHR ''a'', CHR 0x09, CHR ''b''], portNumber = ''80''\<rparr>]"
  by code_simp

text \<open>
  Claim C8, as amended. Serving a List command sorts the registry table in place: the table
  it leaves holds the same entries as before (as a multiset, in the same number of slots,
  with the unused slots untouched), in ascending order of name, which is the order sent to
  the client; the insertion order is not kept. Listing again changes nothing and sends the
  same bytes.
\<close>

theorem listing_sorts_table_in_place:
  assumes "entryCount m \<le> length (entries m)"
  shows "mset (registry_table (fst (print_mappings m))) = mset (registry_table m)
       \<and> sorted (map airportName (registry_table (fst (print_mappings m))))
       \<and> snd (print_mappings m) = concat (map entry_line (registry_table (fst (print_mappings m))))
       \<and> entryCount (fst (print_mappings m)) = entryCount m
       \<and> drop (entryCount m) (entries (fst (print_mappings m))) = drop (entryCount m) (entries m)
       \<and> print_mappings (fst (print_mappings m)) = print_mappings m"
proof -
  have wf': "entryCount (sort_mapping m) \<le> length (entries (sort_mapping m))"
    using assms by simp
  have p: "print_mappings m =
     (sort_mapping m, concat (map entry_line (registry_table (sort_mapping m))))"
    by (rule print_mappings_table[OF assms])
  have "print_mappings (sort_mapping m) = print_mappings m"
    by (simp add: print_mappings_table[OF wf'] p sort_mapping_idem[OF assms])
  then show ?thesis
    using assms
    by (simp add: p mset_registry_table_sort_mapping sorted_registry_table_sort_mapping
        drop_entries_sort_mapping)
qed

theorem listing_sorts_table_in_place_witness:
  "entryCount \<lparr>entryCount = 2, entries = [\<lparr>airportName = ''b'', portNumber = ''80''\<rparr>,
                                            \<lparr>airportName = ''a'', portNumber = ''81''\<rparr>,
                                            \<lparr>airportName = [], portNumber = []\<rparr>]\<rparr>
     \<le> length (entries \<lparr>entryCount = 2, entries = [\<lparr>airportName = ''b'', portNumber = ''80''\<rparr>,
                                            \<lparr>airportName = ''a'', portNumber = ''81''\<rparr>,
                                            \<lparr>airportName = [], portNumber = []\<rparr>]\<rparr>)
   \<and> sorted (map airportName (registry_table (fst (print_mappings
         \<lparr>entryCount = 2, entries = [\<lparr>airportName = ''b'', portNumber = ''80''\<rparr>,
                                            \<lparr>airportName = ''a'', portNumber = ''81''\<rparr>,
                                            \<lparr>airportName = [], portNumber = []\<rparr>]\<rparr>))))
   \<and> snd (print_mappings
         \<lparr>entryCount = 2, entries = [\<lparr>airportName = ''b'', portNumber = ''80''\<rparr>,
                                            \<lparr>airportName = ''a'', portNumber = ''81''\<rparr>,
                                            \<lparr>airportName = [], portNumber = []\<rparr>]\<rparr>)
       = ''a:81'' @ [LF] @ ''b:80'' @ [LF]"
proof -
  let ?m = "\<lparr>entryCount = 2, entries = [\<lparr>airportName = ''b'', portNumber = ''80''\<rparr>,
                                            \<lparr>airportName = ''a'', portNumber = ''81''\<rparr>,
                                            \<lparr>airportName = [], portNumber = []\<rparr>]\<rparr>"
  have wf: "entryCount ?m \<le> length (entries ?m)" by simp
  have out: "snd (print_mappings ?m) = ''a:81'' @ [LF] @ ''b:80'' @ [LF]" by code_simp
  show ?thesis using listing_sorts_table_in_place[OF wf] wf out by simp
qed

text \<open>
  Claim C8 as stated fails: after the adds of \<open>b\<close> and then \<open>a\<close> the table is in
  insertion order, and the listing leaves it in sorted order.
\<close>

theorem listing_preserves_order_counterexample:
  "serve (new_mapping \<lparr>airportName = [], portNumber = []\<rparr>) [''!b:80'' @ [LF], ''!a:81'' @ [LF]]
     = Inr (\<lparr>entryCount = 2,
             entries = \<lparr>airportName = ''b'', portNumber = ''80''\<rparr> #
                       \<lparr>airportName = ''a'', portNumber = ''81''\<rparr> #
                       replicate 998 \<lparr>airportName = [], portNumber = []\<rparr>\<rparr>, [[], []])
   \<and> registry_table \<lparr>entryCount = 2,
             entries = \<lparr>airportName = ''b'', portNumber = ''80''\<rparr> #
                       \<lparr>airportName = ''a'', portNumber = ''81''\<rparr> #
                       replicate 998 \<lparr>airportName = [], portNumber = []\<rparr>\<rparr>
       = [\<lparr>airportName = ''b'', portNumber = ''80''\<rparr>, \<lparr>airportName = ''a'', portNumber = ''81''\<rparr>]
   \<and> registry_table (fst (print_mappings \<lparr>entryCount = 2,
             entries = \<lparr>airportName = ''b'', portNumber = ''80''\<rparr> #
                       \<lparr>airportName = ''a'', portNumber = ''81''\<rparr> #
                       replicate 998 \<lparr>airportName = [], portNumber = []\<rparr>\<rparr>))
       = [\<lparr>airportName = ''a'', portNumber = ''81''\<rparr>, \<lparr>airportName = ''b'', portNumber = ''80''\<rparr>]"
  by code_simp

section \<open>Claims about the service node\<close>

text \<open>
  Claim C3. The command \<open>log\<close> is answered with the clientID of every visit record, one per
  line, in ascending lexicographic order, followed by the line \<open>.\<close>; a clientID recorded
  several times is listed as many times (the records are permuted, none is dropped). After
  any visit lines received since the start of the node, the answer lists exactly their
  identities, sorted; the identity of a visit line is the line as the node reads it, up to
  its first NUL byte or newline.
\<close>

theorem log_response:
  "(visitorCount v \<le> length (visitorEntries v) \<longrightarrow>
      control_handle_command info v (''log'' @ [LF]) =
        Inr (sort_visitors v,
             concat (map (\<lambda>ident. ident @ [LF]) (sort (map aircraftID (visit_log v))))
             @ [CHR ''.'', LF])
      \<and> mset (visit_log (sort_visitors v)) = mset (visit_log v))
   \<and> (control_serve info (new_visitors junk) lines = Inr (v', outs)
        \<and> (\<forall>l\<in>set lines. trim_newline (c_str l) \<noteq> ''log'') \<longrightarrow>
        control_handle_command info v' (''log'' @ [LF]) =
          Inr (sort_visitors v',
               concat (map (\<lambda>ident. ident @ [LF])
                         (sort (map (\<lambda>l. trim_newline (c_str l)) lines)))
               @ [CHR ''.'', LF]))"
proof -
  have log: "control_handle_command info x (''log'' @ [LF]) =
        Inr (sort_visitors x,
             concat (map (\<lambda>ident. ident @ [LF]) (sort (map aircraftID (visit_log x))))
             @ [CHR ''.'', LF])"
    if wf: "visitorCount x \<le> length (visitorEntries x)" for x
  proof -
    have "mset (map aircraftID (visit_log (sort_visitors x))) = mset (map aircraftID (visit_log x))"
      using mset_visit_log_sort_visitors[OF wf] by simp
    then have "sort (map aircraftID (visit_log x)) = map aircraftID (visit_log (sort_visitors x))"
      using sorted_visit_log_sort_visitors[OF wf] by (intro properties_for_sort) simp_all
    then have "concat (map (\<lambda>ident. ident @ [LF]) (sort (map aircraftID (visit_log x))))
       = concat (map (\<lambda>e. aircraftID e @ [LF]) (visit_log (sort_visitors x)))"
      by (simp add: comp_def)
    moreover have "c_str (''log'' @ [LF]) = ''log'' @ [LF]" by (simp add: c_str_def)
    ultimately show ?thesis
      by (simp add: control_handle_command_def control_command_lexer_def
          print_all_visitors_log[OF wf])
  qed
  show ?thesis
  proof (intro conjI impI)
    assume "visitorCount v \<le> length (visitorEntries v)"
    then show "control_handle_command info v (''log'' @ [LF]) =
        Inr (sort_visitors v,
             concat (map (\<lambda>ident. ident @ [LF]) (sort (map aircraftID (visit_log v))))
             @ [CHR ''.'', LF])"
      "mset (visit_log (sort_visitors v)) = mset (visit_log v)"
      using log mset_visit_log_sort_visitors by simp_all
  next
    assume h: "control_serve info (new_visitors junk) lines = Inr (v', outs)
        \<and> (\<forall>l\<in>set lines. trim_newline (c_str l) \<noteq> ''log'')"
    then have wf': "visitorCount v' \<le> length (visitorEntries v')"
      using control_serve_wf[OF wf_new_visitors] by blast
    have "map aircraftID (visit_log v') = map (\<lambda>l. trim_newline (c_str l)) lines"
      using control_serve_visits[OF wf_new_visitors, of info junk lines v' outs] h
      by (simp add: visit_log_new_visitors)
    then show "control_handle_command info v' (''log'' @ [LF]) =
          Inr (sort_visitors v',
               concat (map (\<lambda>ident. ident @ [LF])
                         (sort (map (\<lambda>l. trim_newline (c_str l)) lines)))
               @ [CHR ''.'', LF])"
      using log[OF wf'] by simp
  qed
qed

theorem log_response_witness:
  "visitorCount (append_visitor (append_visitor (append_visitor
        (new_visitors \<lparr>aircraftID = []\<rparr>) \<lparr>aircraftID = ''b''\<rparr>) \<lparr>aircraftID = ''a''\<rparr>)
        \<lparr>aircraftID = ''a''\<rparr>)
     \<le> length (visitorEntries (append_visitor (append_visitor (append_visitor
        (new_visitors \<lparr>aircraftID = []\<rparr>) \<lparr>aircraftID = ''b''\<rparr>) \<lparr>aircraftID = ''a''\<rparr>)
        \<lparr>aircraftID = ''a''\<rparr>))
   \<and> control_serve ''info'' (new_visitors \<lparr>aircraftID = []\<rparr>)
        [''b'' @ [LF], ''a'' @ [LF], ''a'' @ [LF]]
       = Inr (append_visitor (append_visitor (append_visitor
        (new_visitors \<lparr>aircraftID = []\<rparr>) \<lparr>aircraftID = ''b''\<rparr>) \<lparr>aircraftID = ''a''\<rparr>)
        \<lparr>aircraftID = ''a''\<rparr>, [''info'' @ [LF], ''info'' @ [LF], ''info'' @ [LF]])
   \<and> trim_newline (c_str (''b'' @ [LF])) \<noteq> ''log''
   \<and> trim_newline (c_str (''a'' @ [LF])) \<noteq> ''log''
   \<and> control_handle_command ''info'' (append_visitor (append_visitor (append_visitor
        (new_visitors \<lparr>aircraftID = []\<rparr>) \<lparr>aircraftID = ''b''\<rparr>) \<lparr>aircraftID = ''a''\<rparr>)
        \<lparr>aircraftID = ''a''\<rparr>) (''log'' @ [LF])
       = Inr (sort_visitors (append_visitor (append_visitor (append_visitor
        (new_visitors \<lparr>aircraftID = []\<rparr>) \<lparr>aircraftID = ''b''\<rparr>) \<lparr>aircraftID = ''a''\<rparr>)
        \<lparr>aircraftID = ''a''\<rparr>), ''a'' @ [LF] @ ''a'' @ [LF] @ ''b'' @ [LF] @ ''.'' @ [LF])
   \<and> mset (visit_log (sort_visitors (append_visitor (append_visitor (append_visitor
        (new_visitors \<lparr>aircraftID = []\<rparr>) \<lparr>aircraftID = ''b''\<rparr>) \<lparr>aircraftID = ''a''\<rparr>)
        \<lparr>aircraftID = ''a''\<rparr>)))
       = mset (visit_log (append_visitor (append_visitor (append_visitor
        (new_visitors \<lparr>aircraftID = []\<rparr>) \<lparr>aircraftID = ''b''\<rparr>) \<lparr>aircraftID = ''a''\<rparr>)
        \<lparr>aircraftID = ''a''\<rparr>))"
proof -
  let ?V = "append_visitor (append_visitor (append_visitor
        (new_visitors \<lparr>aircraftID = []\<rparr>) \<lparr>aircraftID = ''b''\<rparr>) \<lparr>aircraftID = ''a''\<rparr>)
        \<lparr>aircraftID = ''a''\<rparr>"
  let ?lines = "[''b'' @ [LF], ''a'' @ [LF], ''a'' @ [LF]]"
  note T = log_response[where v = ?V and info = "''info''" and junk = "\<lparr>aircraftID = []\<rparr>"
      and lines = ?lines and v' = ?V
      and outs = "[''info'' @ [LF], ''info'' @ [LF], ''info'' @ [LF]]"]
  have wf: "visitorCount ?V \<le> length (visitorEntries ?V)" by code_simp
  have s: "control_serve ''info'' (new_visitors \<lparr>aircraftID = []\<rparr>) ?lines
      = Inr (?V, [''info'' @ [LF], ''info'' @ [LF], ''info'' @ [LF]])" by code_simp
  have nolog: "trim_newline (c_str (''b'' @ [LF])) \<noteq> ''log''"
    "trim_newline (c_str (''a'' @ [LF])) \<noteq> ''log''"
    by (simp_all add: c_str_def)
  then have all: "\<forall>l\<in>set ?lines. trim_newline (c_str l) \<noteq> ''log''" by simp
  have "control_handle_command ''info'' ?V (''log'' @ [LF]) =
          Inr (sort_visitors ?V,
               concat (map (\<lambda>ident. ident @ [LF])
                         (sort (map (\<lambda>l. trim_newline (c_str l)) ?lines)))
               @ [CHR ''.'', LF])"
    using T s all by blast
  moreover have "concat (map (\<lambda>ident. ident @ [LF])
                         (sort (map (\<lambda>l. trim_newline (c_str l)) ?lines)))
               @ [CHR ''.'', LF] = ''a'' @ [LF] @ ''a'' @ [LF] @ ''b'' @ [LF] @ ''.'' @ [LF]"
    by code_simp
  ultimately have log: "control_handle_command ''info'' ?V (''log'' @ [LF]) =
      Inr (sort_visitors ?V, ''a'' @ [LF] @ ''a'' @ [LF] @ ''b'' @ [LF] @ ''.'' @ [LF])"
    by (simp only:)
  have perm: "mset (visit_log (sort_visitors ?V)) = mset (visit_log ?V)"
    using T wf by blast
  show ?thesis by (intro conjI wf s nolog log perm)
qed

text \<open>
  Claim C7, as amended. Whatever lines the registry has served since its start, a List
  response holds the entries of the table in strictly ascending lexicographic order of
  name; whatever lines the node has served since its start, the body of a log response
  holds the recorded clientIDs in ascending order, in which a clientID recorded more than
  once stands on neighbouring lines, so that this order is not strict. Both listings are
  permutations of the table, whatever the order of insertion.
\<close>

theorem listings_are_sorted:
  "(serve (new_mapping junk) lines = Inr (m, outs) \<longrightarrow>
      snd (print_mappings m) = concat (map entry_line (registry_table (fst (print_mappings m))))
      \<and> sorted_wrt (<) (map airportName (registry_table (fst (print_mappings m))))
      \<and> mset (registry_table (fst (print_mappings m))) = mset (registry_table m))
   \<and> (control_serve info (new_visitors vjunk) vlines = Inr (v, vouts) \<longrightarrow>
      snd (print_all_visitors v)
        = concat (map (\<lambda>e. aircraftID e @ [LF]) (visit_log (fst (print_all_visitors v))))
          @ [CHR ''.'', LF]
      \<and> sorted_wrt (\<le>) (map aircraftID (visit_log (fst (print_all_visitors v))))
      \<and> mset (visit_log (fst (print_all_visitors v))) = mset (visit_log v))"
proof (intro conjI impI)
  assume s: "serve (new_mapping junk) lines = Inr (m, outs)"
  have wf: "entryCount m \<le> length (entries m)" using serve_wf[OF wf_new_mapping s] by simp
  have d: "distinct (map airportName (registry_table m))"
    using serve_distinct[OF wf_new_mapping s] by simp
  have p: "print_mappings m =
     (sort_mapping m, concat (map entry_line (registry_table (sort_mapping m))))"
    by (rule print_mappings_table[OF wf])
  show "snd (print_mappings m) = concat (map entry_line (registry_table (fst (print_mappings m))))"
    by (simp add: p)
  show ms: "mset (registry_table (fst (print_mappings m))) = mset (registry_table m)"
    by (simp add: p mset_registry_table_sort_mapping[OF wf])
  have "mset (map airportName (registry_table (sort_mapping m)))
      = mset (map airportName (registry_table m))"
    using mset_registry_table_sort_mapping[OF wf] by simp
  then have "distinct (map airportName (registry_table (sort_mapping m)))"
    using d by (metis mset_eq_imp_distinct_iff)
  then show "sorted_wrt (<) (map airportName (registry_table (fst (print_mappings m))))"
    using sorted_registry_table_sort_mapping[OF wf] by (simp add: p strict_sorted_iff)
next
  assume s: "control_serve info (new_visitors vjunk) vlines = Inr (v, vouts)"
  have wf: "visitorCount v \<le> length (visitorEntries v)"
    using control_serve_wf[OF wf_new_visitors s] by simp
  note p = print_all_visitors_log[OF wf]
  show "snd (print_all_visitors v)
        = concat (map (\<lambda>e. aircraftID e @ [LF]) (visit_log (fst (print_all_visitors v))))
          @ [CHR ''.'', LF]"
    by (simp add: p)
  show "sorted_wrt (\<le>) (map aircraftID (visit_log (fst (print_all_visitors v))))"
    using sorted_visit_log_sort_visitors[OF wf] by (simp add: p)
  show "mset (visit_log (fst (print_all_visitors v))) = mset (visit_log v)"
    by (simp add: p mset_visit_log_sort_visitors[OF wf])
qed

theorem listings_are_sorted_witness:
  "serve (new_mapping \<lparr>airportName = [], portNumber = []\<rparr>) [''!b:80'' @ [LF], ''!a:81'' @ [LF]]
     = Inr (append_entry (append_entry (new_mapping \<lparr>airportName = [], portNumber = []\<rparr>)
              \<lparr>airportName = ''b'', portNumber = ''80''\<rparr>)
              \<lparr>airportName = ''a'', portNumber = ''81''\<rparr>, [[], []])
   \<and> snd (print_mappings (append_entry (append_entry
              (new_mapping \<lparr>airportName = [], portNumber = []\<rparr>)
              \<lparr>airportName = ''b'', portNumber = ''80''\<rparr>)
              \<lparr>airportName = ''a'', portNumber = ''81''\<rparr>))
       = ''a:81'' @ [LF] @ ''b:80'' @ [LF]
   \<and> sorted_wrt (<) (map airportName (registry_table (fst (print_mappings
          (append_entry (append_entry (new_mapping \<lparr>airportName = [], portNumber = []\<rparr>)
              \<lparr>airportName = ''b'', portNumber = ''80''\<rparr>)
              \<lparr>airportName = ''a'', portNumber = ''81''\<rparr>)))))
   \<and> control_serve ''info'' (new_visitors \<lparr>aircraftID = []\<rparr>) [''b'' @ [LF], ''a'' @ [LF]]
       = Inr (append_visitor (append_visitor (new_visitors \<lparr>aircraftID = []\<rparr>)
                \<lparr>aircraftID = ''b''\<rparr>) \<lparr>aircraftID = ''a''\<rparr>, [''info'' @ [LF], ''info'' @ [LF]])
   \<and> sorted_wrt (\<le>) (map aircraftID (visit_log (fst (print_all_visitors
         (append_visitor (append_visitor (new_visitors \<lparr>aircraftID = []\<rparr>)
                \<lparr>aircraftID = ''b''\<rparr>) \<lparr>aircraftID = ''a''\<rparr>)))))"
proof -
  let ?M = "append_entry (append_entry (new_mapping \<lparr>airportName = [], portNumber = []\<rparr>)
              \<lparr>airportName = ''b'', portNumber = ''80''\<rparr>)
              \<lparr>airportName = ''a'', portNumber = ''81''\<rparr>"
  let ?V = "append_visitor (append_visitor (new_visitors \<lparr>aircraftID = []\<rparr>)
                \<lparr>aircraftID = ''b''\<rparr>) \<lparr>aircraftID = ''a''\<rparr>"
  note T = listings_are_sorted[where junk = "\<lparr>airportName = [], portNumber = []\<rparr>"
      and lines = "[''!b:80'' @ [LF], ''!a:81'' @ [LF]]" and m = ?M and outs = "[[], []]"
      and info = "''info''" and vjunk = "\<lparr>aircraftID = []\<rparr>"
      and vlines = "[''b'' @ [LF], ''a'' @ [LF]]" and v = ?V
      and vouts = "[''info'' @ [LF], ''info'' @ [LF]]"]
  have s: "serve (new_mapping \<lparr>airportName = [], portNumber = []\<rparr>)
      [''!b:80'' @ [LF], ''!a:81'' @ [LF]] = Inr (?M, [[], []])" by code_simp
  have cs: "control_serve ''info'' (new_visitors \<lparr>aircraftID = []\<rparr>) [''b'' @ [LF], ''a'' @ [LF]]
      = Inr (?V, [''info'' @ [LF], ''info'' @ [LF]])" by code_simp
  have out: "snd (print_mappings ?M) = ''a:81'' @ [LF] @ ''b:80'' @ [LF]" by code_simp
  have st: "sorted_wrt (<) (map airportName (registry_table (fst (print_mappings ?M))))"
    using T s by blast
  have sv: "sorted_wrt (\<le>) (map aircraftID (visit_log (fst (print_all_visitors ?V))))"
    using T cs by blast
  show ?thesis by (intro conjI s out st cs sv)
qed

text \<open>
  Claim C7 as stated fails for the log: after two visits of the same aircraft the body of
  the log response is not strictly ascending.
\<close>

theorem log_strictly_ascending_counterexample:
  "control_serve ''info'' (new_visitors \<lparr>aircraftID = []\<rparr>) [''a'' @ [LF], ''a'' @ [LF]]
     = Inr (append_visitor (append_visitor (new_visitors \<lparr>aircraftID = []\<rparr>)
              \<lparr>aircraftID = ''a''\<rparr>) \<lparr>aircraftID = ''a''\<rparr>, [''info'' @ [LF], ''info'' @ [LF]])
   \<and> snd (print_all_visitors (append_visitor (append_visitor (new_visitors \<lparr>aircraftID = []\<rparr>)
              \<lparr>aircraftID = ''a''\<rparr>) \<lparr>aircraftID = ''a''\<rparr>))
       = ''a'' @ [LF] @ ''a'' @ [LF] @ ''.'' @ [LF]
   \<and> map aircraftID (visit_log (fst (print_all_visitors
         (append_visitor (append_visitor (new_visitors \<lparr>aircraftID = []\<rparr>)
              \<lparr>aircraftID = ''a''\<rparr>) \<lparr>aircraftID = ''a''\<rparr>)))) = [''a'', ''a'']
   \<and> \<not> sorted_wrt (<) (map aircraftID (visit_log (fst (print_all_visitors
         (append_visitor (append_visitor (new_visitors \<lparr>aircraftID = []\<rparr>)
              \<lparr>aircraftID = ''a''\<rparr>) \<lparr>aircraftID = ''a''\<rparr>)))))"
proof -
  let ?V = "append_visitor (append_visitor (new_visitors \<lparr>aircraftID = []\<rparr>)
              \<lparr>aircraftID = ''a''\<rparr>) \<lparr>aircraftID = ''a''\<rparr>"
  have 1: "control_serve ''info'' (new_visitors \<lparr>aircraftID = []\<rparr>) [''a'' @ [LF], ''a'' @ [LF]]
     = Inr (?V, [''info'' @ [LF], ''info'' @ [LF]])" by code_simp
  have 2: "snd (print_all_visitors ?V) = ''a'' @ [LF] @ ''a'' @ [LF] @ ''.'' @ [LF]" by code_simp
  have 3: "map aircraftID (visit_log (fst (print_all_visitors ?V))) = [''a'', ''a'']" by code_simp
  have 4: "\<not> sorted_wrt (<) (map aircraftID (visit_log (fst (print_all_visitors ?V))))"
    unfolding 3 by simp
  show ?thesis by (intro conjI 1 2 3 4)
qed

section \<open>Claims about both servers\<close>

text \<open>
  Claim C10. The registry's table and the node's visit log are arrays of 1000 slots,
  allocated once when the server starts, and no line served changes their size. The add
  operation and the visit-record operation write at index \<open>entryCount\<close> and
  \<open>visitorCount\<close> without comparing it to the size of the array: for an add that is
  accepted and for every visit, the write is inside the array exactly when fewer than 1000
  entries have been written, and is a write past its end otherwise.
\<close>

theorem fixed_capacity_unchecked:
  "MAX_MAP_ENTRIES = 1000 \<and> MAX_VISITOR_ENTRIES = 1000
   \<and> length (entries (new_mapping junk)) = MAX_MAP_ENTRIES
   \<and> length (visitorEntries (new_visitors vjunk)) = MAX_VISITOR_ENTRIES
   \<and> (serve (new_mapping junk) lines = Inr (m', outs) \<longrightarrow>
        length (entries m') = MAX_MAP_ENTRIES \<and> entryCount m' \<le> MAX_MAP_ENTRIES)
   \<and> (control_serve info (new_visitors vjunk) vlines = Inr (v', vouts) \<longrightarrow>
        length (visitorEntries v') = MAX_VISITOR_ENTRIES \<and> visitorCount v' \<le> MAX_VISITOR_ENTRIES)
   \<and> (length (entries m) = MAX_MAP_ENTRIES \<and> entryCount m \<le> MAX_MAP_ENTRIES
        \<and> name_ok n \<and> valid_port a
        \<and> length n < MAX_AIRPORT_ID_LENGTH \<and> length a < PORT_NUMBER_LENGTH
        \<and> n \<notin> airportName ` set (registry_table m) \<longrightarrow>
        add_map_entry m (CHR ''!'' # n @ CHR '':'' # a) =
          (if entryCount m < MAX_MAP_ENTRIES
           then Inr (m\<lparr>entries := (entries m)[entryCount m := \<lparr>airportName = n, portNumber = a\<rparr>],
                       entryCount := entryCount m + 1\<rparr>)
           else Inl Index_Out_Of_Bounds))
   \<and> (length (visitorEntries v) = MAX_VISITOR_ENTRIES
        \<and> length ident < MAX_AIRCRAFT_NAME_LENGTH \<longrightarrow>
        record_visit v ident =
          (if visitorCount v < MAX_VISITOR_ENTRIES
           then Inr (v\<lparr>visitorEntries := (visitorEntries v)[visitorCount v := \<lparr>aircraftID = ident\<rparr>],
                       visitorCount := visitorCount v + 1\<rparr>)
           else Inl Index_Out_Of_Bounds))"
proof (intro conjI impI)
  show "MAX_MAP_ENTRIES = 1000" by (simp add: MAX_MAP_ENTRIES_def)
  show "MAX_VISITOR_ENTRIES = 1000" by (simp add: MAX_VISITOR_ENTRIES_def)
  show "length (entries (new_mapping junk)) = MAX_MAP_ENTRIES" by simp
  show "length (visitorEntries (new_visitors vjunk)) = MAX_VISITOR_ENTRIES"
    by (rule length_visitorEntries_new_visitors)
next
  assume s: "serve (new_mapping junk) lines = Inr (m', outs)"
  from serve_wf[OF wf_new_mapping s]
  show "length (entries m') = MAX_MAP_ENTRIES" "entryCount m' \<le> MAX_MAP_ENTRIES" by simp_all
next
  assume s: "control_serve info (new_visitors vjunk) vlines = Inr (v', vouts)"
  from control_serve_wf[OF wf_new_visitors s]
  show "length (visitorEntries v') = MAX_VISITOR_ENTRIES" "visitorCount v' \<le> MAX_VISITOR_ENTRIES"
    by (simp_all add: length_visitorEntries_new_visitors)
next
  assume h: "length (entries m) = MAX_MAP_ENTRIES \<and> entryCount m \<le> MAX_MAP_ENTRIES
        \<and> name_ok n \<and> valid_port a
        \<and> length n < MAX_AIRPORT_ID_LENGTH \<and> length a < PORT_NUMBER_LENGTH
        \<and> n \<notin> airportName ` set (registry_table m)"
  then have wf: "entryCount m \<le> length (entries m)" by simp
  have a: "a \<noteq> []" "list_all isdigit a" using h by (simp_all add: valid_port_def)
  then have colon: "CHR '':'' \<notin> set a"
    by (auto simp: list_all_iff isdigit_def less_eq_char_def)
  have ius: "is_unsigned_short a = Inr True" using h by (simp add: is_unsigned_short_short)
  show "add_map_entry m (CHR ''!'' # n @ CHR '':'' # a) =
          (if entryCount m < MAX_MAP_ENTRIES
           then Inr (m\<lparr>entries := (entries m)[entryCount m := \<lparr>airportName = n, portNumber = a\<rparr>],
                       entryCount := entryCount m + 1\<rparr>)
           else Inl Index_Out_Of_Bounds)"
    using add_map_entry_parts[of n a m, OF _ _ a(1) colon wf] h ius
    by (simp add: name_ok_def)
next
  assume h: "length (visitorEntries v) = MAX_VISITOR_ENTRIES
        \<and> length ident < MAX_AIRCRAFT_NAME_LENGTH"
  then show "record_visit v ident =
          (if visitorCount v < MAX_VISITOR_ENTRIES
           then Inr (v\<lparr>visitorEntries := (visitorEntries v)[visitorCount v := \<lparr>aircraftID = ident\<rparr>],
                       visitorCount := visitorCount v + 1\<rparr>)
           else Inl Index_Out_Of_Bounds)"
    by (simp add: record_visit_result append_visitor_def)
qed

theorem fixed_capacity_unchecked_witness:
  "serve (new_mapping \<lparr>airportName = [], portNumber = []\<rparr>) [''!b:80'' @ [LF]]
     = Inr (append_entry (new_mapping \<lparr>airportName = [], portNumber = []\<rparr>)
              \<lparr>airportName = ''b'', portNumber = ''80''\<rparr>, [[]])
   \<and> length (entries (append_entry (new_mapping \<lparr>airportName = [], portNumber = []\<rparr>)
              \<lparr>airportName = ''b'', portNumber = ''80''\<rparr>)) = MAX_MAP_ENTRIES
   \<and> control_serve ''info'' (new_visitors \<lparr>aircraftID = []\<rparr>) [''a'' @ [LF]]
       = Inr (append_visitor (new_visitors \<lparr>aircraftID = []\<rparr>) \<lparr>aircraftID = ''a''\<rparr>,
              [''info'' @ [LF]])
   \<and> length (visitorEntries (append_visitor (new_visitors \<lparr>aircraftID = []\<rparr>)
              \<lparr>aircraftID = ''a''\<rparr>)) = MAX_VISITOR_ENTRIES
   \<and> length (entries \<lparr>entryCount = 1000,
                       entries = replicate 1000 \<lparr>airportName = ''b'', portNumber = ''80''\<rparr>\<rparr>)
       = MAX_MAP_ENTRIES
   \<and> entryCount \<lparr>entryCount = 1000,
                       entries = replicate 1000 \<lparr>airportName = ''b'', portNumber = ''80''\<rparr>\<rparr>
       \<le> MAX_MAP_ENTRIES
   \<and> name_ok ''a'' \<and> valid_port ''81''
   \<and> length ''a'' < MAX_AIRPORT_ID_LENGTH \<and> length ''81'' < PORT_NUMBER_LENGTH
   \<and> ''a'' \<notin> airportName ` set (registry_table \<lparr>entryCount = 1000,
                       entries = replicate 1000 \<lparr>airportName = ''b'', portNumber = ''80''\<rparr>\<rparr>)
   \<and> add_map_entry \<lparr>entryCount = 1000,
                       entries = replicate 1000 \<lparr>airportName = ''b'', portNumber = ''80''\<rparr>\<rparr>
         ''!a:81'' = Inl Index_Out_Of_Bounds
   \<and> length (visitorEntries \<lparr>visitorCount = 1000,
                       visitorEntries = replicate 1000 \<lparr>aircraftID = ''b''\<rparr>\<rparr>)
       = MAX_VISITOR_ENTRIES
   \<and> length ''a'' < MAX_AIRCRAFT_NAME_LENGTH
   \<and> record_visit \<lparr>visitorCount = 1000,
                       visitorEntries = replicate 1000 \<lparr>aircraftID = ''b''\<rparr>\<rparr> ''a''
       = Inl Index_Out_Of_Bounds"
proof -
  let ?M = "append_entry (new_mapping \<lparr>airportName = [], portNumber = []\<rparr>)
              \<lparr>airportName = ''b'', portNumber = ''80''\<rparr>"
  let ?V = "append_visitor (new_visitors \<lparr>aircraftID = []\<rparr>) \<lparr>aircraftID = ''a''\<rparr>"
  let ?F = "\<lparr>entryCount = 1000,
             entries = replicate 1000 \<lparr>airportName = ''b'', portNumber = ''80''\<rparr>\<rparr>"
  let ?G = "\<lparr>visitorCount = 1000, visitorEntries = replicate 1000 \<lparr>aircraftID = ''b''\<rparr>\<rparr>"
  note T = fixed_capacity_unchecked[where junk = "\<lparr>airportName = [], portNumber = []\<rparr>"
      and vjunk = "\<lparr>aircraftID = []\<rparr>" and lines = "[''!b:80'' @ [LF]]" and m' = ?M
      and outs = "[[]]" and info = "''info''" and vlines = "[''a'' @ [LF]]" and v' = ?V
      and vouts = "[''info'' @ [LF]]" and m = ?F and n = "''a''" and a = "''81''"
      and v = ?G and ident = "''a''"]
  have s: "serve (new_mapping \<lparr>airportName = [], portNumber = []\<rparr>) [''!b:80'' @ [LF]]
     = Inr (?M, [[]])" by code_simp
  have cs: "control_serve ''info'' (new_visitors \<lparr>aircraftID = []\<rparr>) [''a'' @ [LF]]
     = Inr (?V, [''info'' @ [LF]])" by code_simp
  have c1: "length (entries ?M) = MAX_MAP_ENTRIES" using T s by blast
  have c2: "length (visitorEntries ?V) = MAX_VISITOR_ENTRIES" using T cs by blast
  have h1: "length (entries ?F) = MAX_MAP_ENTRIES" by (simp add: MAX_MAP_ENTRIES_def)
  have h2: "entryCount ?F \<le> MAX_MAP_ENTRIES" by (simp add: MAX_MAP_ENTRIES_def)
  have h3: "name_ok ''a''" by (simp add: name_ok_def)
  have h4: "valid_port ''81''" by code_simp
  have h5: "length ''a'' < MAX_AIRPORT_ID_LENGTH" by (simp add: MAX_AIRPORT_ID_LENGTH_def)
  have h6: "length ''81'' < PORT_NUMBER_LENGTH" by (simp add: PORT_NUMBER_LENGTH_def)
  have h7: "''a'' \<notin> airportName ` set (registry_table ?F)" by (simp add: registry_table_def)
  have full: "\<not> entryCount ?F < MAX_MAP_ENTRIES" by (simp add: MAX_MAP_ENTRIES_def)
  have "add_map_entry ?F (CHR ''!'' # ''a'' @ CHR '':'' # ''81'') =
          (if entryCount ?F < MAX_MAP_ENTRIES
           then Inr (?F\<lparr>entries := (entries ?F)[entryCount ?F := \<lparr>airportName = ''a'', portNumber = ''81''\<rparr>],
                       entryCount := entryCount ?F + 1\<rparr>)
           else Inl Index_Out_Of_Bounds)"
    using T h1 h2 h3 h4 h5 h6 h7 by blast
  then have c3: "add_map_entry ?F ''!a:81'' = Inl Index_Out_Of_Bounds"
    using full by simp
  have g1: "length (visitorEntries ?G) = MAX_VISITOR_ENTRIES" by (simp add: MAX_VISITOR_ENTRIES_def)
  have g2: "length ''a'' < MAX_AIRCRAFT_NAME_LENGTH" by (simp add: MAX_AIRCRAFT_NAME_LENGTH_def)
  have vfull: "\<not> visitorCount ?G < MAX_VISITOR_ENTRIES" by (simp add: MAX_VISITOR_ENTRIES_def)
  have "record_visit ?G ''a'' =
          (if visitorCount ?G < MAX_VISITOR_ENTRIES
           then Inr (?G\<lparr>visitorEntries := (visitorEntries ?G)[visitorCount ?G := \<lparr>aircraftID = ''a''\<rparr>],
                       visitorCount := visitorCount ?G + 1\<rparr>)
           else Inl Index_Out_Of_Bounds)"
    using T g1 g2 by blast
  then have c4: "record_visit ?G ''a'' = Inl Index_Out_Of_Bounds"
    using vfull by simp
  show ?thesis by (intro conjI s c1 cs c2 h1 h2 h3 h4 h5 h6 h7 c3 g1 g2 c4)
qed
section \<open>Claims about the itinerant client\<close>

text \<open>
  Claim C5, as amended. When the client needs name resolution, has a valid registry port
  and a connection to the registry that takes the query for every name, every destination
  and every reply (read as a C string) fits the 6 bytes of a destination buffer, and the
  reply to some name is
  \<open>;\<close> or does not arrive because the stream has ended, then the client exits with the
  status for an unresolved destination without visiting any destination, also not the
  resolved ones or those given as port numbers, and prints nothing. When the connection to
  the registry breaks before the query for the last name is written, the client is killed by
  SIGPIPE: it visits nothing, prints nothing and returns no status.
\<close>

theorem resolution_failure_aborts:
  "(mp \<noteq> ''-'' \<and> is_unsigned_short mp = Inr True
     \<and> (\<forall>d\<in>set dests. length d < PORT_NUMBER_LENGTH \<and> NUL \<notin> set d)
     \<and> (\<forall>p\<in>set (replies_for stream (filter needs_resolution dests)).
           \<forall>rep. snd p = Some rep \<longrightarrow> length rep < PORT_NUMBER_LENGTH)
     \<and> list_ex unresolved (replies_for stream (filter needs_resolution dests))
     \<and> length (filter needs_resolution dests) \<le> w
     \<longrightarrow> main (prog # ident # mp # dests) (Connected stream w) net junk
           = Inr \<lparr>status = ROC_CANNOT_RESOLVE_PORT, stdout = [], visited = []\<rparr>)
   \<and> (mp \<noteq> ''-'' \<and> is_unsigned_short mp = Inr True
     \<and> (\<forall>d\<in>set dests. length d < PORT_NUMBER_LENGTH \<and> NUL \<notin> set d)
     \<and> (\<forall>p\<in>set (replies_for stream (filter needs_resolution dests)).
           \<forall>rep. snd p = Some rep \<longrightarrow> length rep < PORT_NUMBER_LENGTH)
     \<and> w < length (filter needs_resolution dests)
     \<longrightarrow> main (prog # ident # mp # dests) (Connected stream w) net junk = Inl Broken_Pipe)"
proof (intro conjI impI)
  assume h: "mp \<noteq> ''-'' \<and> is_unsigned_short mp = Inr True
     \<and> (\<forall>d\<in>set dests. length d < PORT_NUMBER_LENGTH \<and> NUL \<notin> set d)
     \<and> (\<forall>p\<in>set (replies_for stream (filter needs_resolution dests)).
           \<forall>rep. snd p = Some rep \<longrightarrow> length rep < PORT_NUMBER_LENGTH)
     \<and> list_ex unresolved (replies_for stream (filter needs_resolution dests))
     \<and> length (filter needs_resolution dests) \<le> w"
  let ?ds = "map (\<lambda>d. \<lparr>capacity = PORT_NUMBER_LENGTH, content = d\<rparr>) dests"
  have len: "\<forall>d\<in>set dests. length d < PORT_NUMBER_LENGTH" using h by simp
  have spec: "strcmp mp ''-'' \<noteq> 0" using h by (simp add: strcmp_eq_0_iff)
  have "filter needs_resolution dests \<noteq> []" using h replies_for_nonempty by blast
  then have req: "list_ex needs_resolution dests" by (auto simp: list_ex_iff filter_empty_conv)
  have cp: "copy_destinations dests False = Inr (?ds, True)"
    using copy_destinations_short[OF len, of False] req by simp
  have short: "\<forall>d\<in>set (drop 0 ?ds). length (content d) < PORT_NUMBER_LENGTH
                                  \<and> capacity d = PORT_NUMBER_LENGTH"
    using len by simp
  have fits: "\<forall>p\<in>set (replies_for stream (filter needs_resolution (map content (drop 0 ?ds)))).
           \<forall>rep. snd p = Some rep \<longrightarrow> length rep < PORT_NUMBER_LENGTH"
    using h by (simp add: comp_def)
  have enough: "length (filter needs_resolution (map content (drop 0 ?ds))) \<le> w"
    using h by (simp add: comp_def)
  from resolve_loop_defined[OF short fits, of w True] enough
  have "resolve_loop w stream ?ds 0 True =
      Inr (fst (projr (resolve_loop w stream ?ds 0 True)),
           snd (projr (resolve_loop w stream ?ds 0 True)))" by (simp only: if_True)
  then obtain ds' ok where rl: "resolve_loop w stream ?ds 0 True = Inr (ds', ok)"
    by (rule that)
  from resolve_loop_result[OF rl] h have "\<not> ok" by (simp add: comp_def)
  then have rd: "resolve_destinations (Connected stream w) ?ds
      = Inr (ds', ROC_CANNOT_RESOLVE_PORT)"
    using rl by (simp add: resolve_destinations_def connect_to_port_def)
  show "main (prog # ident # mp # dests) (Connected stream w) net junk
         = Inr \<lparr>status = ROC_CANNOT_RESOLVE_PORT, stdout = [], visited = []\<rparr>"
    unfolding main_def using spec h
    by (simp add: cp rd roc_exit_def Let_def del: strcmp.simps)
next
  assume h: "mp \<noteq> ''-'' \<and> is_unsigned_short mp = Inr True
     \<and> (\<forall>d\<in>set dests. length d < PORT_NUMBER_LENGTH \<and> NUL \<notin> set d)
     \<and> (\<forall>p\<in>set (replies_for stream (filter needs_resolution dests)).
           \<forall>rep. snd p = Some rep \<longrightarrow> length rep < PORT_NUMBER_LENGTH)
     \<and> w < length (filter needs_resolution dests)"
  let ?ds = "map (\<lambda>d. \<lparr>capacity = PORT_NUMBER_LENGTH, content = d\<rparr>) dests"
  have len: "\<forall>d\<in>set dests. length d < PORT_NUMBER_LENGTH" using h by simp
  have spec: "strcmp mp ''-'' \<noteq> 0" using h by (simp add: strcmp_eq_0_iff)
  have "filter needs_resolution dests \<noteq> []" using h by auto
  then have req: "list_ex needs_resolution dests" by (auto simp: list_ex_iff filter_empty_conv)
  have cp: "copy_destinations dests False = Inr (?ds, True)"
    using copy_destinations_short[OF len, of False] req by simp
  have short: "\<forall>d\<in>set (drop 0 ?ds). length (content d) < PORT_NUMBER_LENGTH
                                  \<and> capacity d = PORT_NUMBER_LENGTH"
    using len by simp
  have fits: "\<forall>p\<in>set (replies_for stream (filter needs_resolution (map content (drop 0 ?ds)))).
           \<forall>rep. snd p = Some rep \<longrightarrow> length rep < PORT_NUMBER_LENGTH"
    using h by (simp add: comp_def)
  have few: "\<not> length (filter needs_resolution (map content (drop 0 ?ds))) \<le> w"
    using h by (simp add: comp_def)
  from resolve_loop_defined[OF short fits, of w True] few
  have rl: "resolve_loop w stream ?ds 0 True = Inl Broken_Pipe" by (simp only: if_False)
  then have rd: "resolve_destinations (Connected stream w) ?ds = Inl Broken_Pipe"
    by (simp add: resolve_destinations_def connect_to_port_def)
  show "main (prog # ident # mp # dests) (Connected stream w) net junk = Inl Broken_Pipe"
    unfolding main_def using spec h
    by (simp add: cp rd Let_def del: strcmp.simps)
qed

theorem resolution_failure_aborts_witness:
  "''4000'' \<noteq> ''-'' \<and> is_unsigned_short ''4000'' = Inr True
   \<and> length ''1001'' < PORT_NUMBER_LENGTH \<and> length ''X'' < PORT_NUMBER_LENGTH
   \<and> length ''Y'' < PORT_NUMBER_LENGTH
   \<and> NUL \<notin> set ''1001'' \<and> NUL \<notin> set ''X'' \<and> NUL \<notin> set ''Y''
   \<and> replies_for (''1003'' @ [LF]) (filter needs_resolution [''1001'', ''X'', ''Y''])
       = [(''X'', Some ''1003''), (''Y'', None)]
   \<and> length ''1003'' < PORT_NUMBER_LENGTH
   \<and> unresolved (''Y'', None)
   \<and> length (filter needs_resolution [''1001'', ''X'', ''Y'']) \<le> (2::nat)
   \<and> main [''roc2310'', ''F100'', ''4000'', ''1001'', ''X'', ''Y''] (Connected (''1003'' @ [LF]) 2)
        (net_of [(''1001'', ''infoA'' @ [LF]), (''1003'', ''infoB'' @ [LF])]) ''junk''
       = Inr \<lparr>status = ROC_CANNOT_RESOLVE_PORT, stdout = [], visited = []\<rparr>
   \<and> (1::nat) < length (filter needs_resolution [''1001'', ''X'', ''Y''])
   \<and> main [''roc2310'', ''F100'', ''4000'', ''1001'', ''X'', ''Y''] (Connected (''1003'' @ [LF]) 1)
        (net_of [(''1001'', ''infoA'' @ [LF]), (''1003'', ''infoB'' @ [LF])]) ''junk''
       = Inl Broken_Pipe"
proof -
  let ?net = "net_of [(''1001'', ''infoA'' @ [LF]), (''1003'', ''infoB'' @ [LF])]"
  let ?dests = "[''1001'', ''X'', ''Y'']"
  note T = resolution_failure_aborts[where mp = "''4000''" and dests = ?dests
      and stream = "''1003'' @ [LF]" and prog = "''roc2310''" and ident = "''F100''"
      and net = ?net and junk = "''junk''" and w = 2]
  note B = resolution_failure_aborts[where mp = "''4000''" and dests = ?dests
      and stream = "''1003'' @ [LF]" and prog = "''roc2310''" and ident = "''F100''"
      and net = ?net and junk = "''junk''" and w = 1]
  have mp: "''4000'' \<noteq> ''-''" "is_unsigned_short ''4000'' = Inr True" by code_simp+
  have l: "length ''1001'' < PORT_NUMBER_LENGTH" "length ''X'' < PORT_NUMBER_LENGTH"
    "length ''Y'' < PORT_NUMBER_LENGTH" "length ''1003'' < PORT_NUMBER_LENGTH"
    by (simp_all add: PORT_NUMBER_LENGTH_def)
  have rep: "replies_for (''1003'' @ [LF]) (filter needs_resolution ?dests)
       = [(''X'', Some ''1003''), (''Y'', None)]" by code_simp
  have un: "unresolved (''Y'', None)" by (simp add: unresolved_def)
  have cnt: "filter needs_resolution ?dests = [''X'', ''Y'']" by code_simp
  have w2: "length (filter needs_resolution ?dests) \<le> (2::nat)" unfolding cnt by simp
  have w1: "(1::nat) < length (filter needs_resolution ?dests)" unfolding cnt by simp
  have z: "NUL \<notin> set ''1001''" "NUL \<notin> set ''X''" "NUL \<notin> set ''Y''" by simp_all
  have short: "\<forall>d\<in>set ?dests. length d < PORT_NUMBER_LENGTH \<and> NUL \<notin> set d"
    using l z by simp
  have fits: "\<forall>p\<in>set (replies_for (''1003'' @ [LF]) (filter needs_resolution ?dests)).
         \<forall>rep. snd p = Some rep \<longrightarrow> length rep < PORT_NUMBER_LENGTH"
    unfolding rep using l by simp
  have ex: "list_ex unresolved (replies_for (''1003'' @ [LF]) (filter needs_resolution ?dests))"
    unfolding rep using un by simp
  have m: "main (''roc2310'' # ''F100'' # ''4000'' # ?dests) (Connected (''1003'' @ [LF]) 2)
        ?net ''junk'' = Inr \<lparr>status = ROC_CANNOT_RESOLVE_PORT, stdout = [], visited = []\<rparr>"
    using T mp short fits ex w2 by blast
  have b: "main (''roc2310'' # ''F100'' # ''4000'' # ?dests) (Connected (''1003'' @ [LF]) 1)
        ?net ''junk'' = Inl Broken_Pipe"
    using B mp short fits w1 by blast
  show ?thesis by (intro conjI mp l(1-3) z rep l(4) un w2 m w1 b)
qed

text \<open>
  Claim C5 as stated fails: with destinations \<open>X\<close> and \<open>1001\<close>, the registry answering
  \<open>;\<close> for \<open>X\<close> and a node listening on port 1001, the client connects to no
  destination and prints nothing.
\<close>

theorem visit_after_failed_resolution_counterexample:
  "main [''roc2310'', ''F100'', ''4000'', ''X'', ''1001''] (Connected ('';'' @ [LF]) 1)
      (net_of [(''1001'', ''infoA'' @ [LF])]) ''junk''
     = Inr \<lparr>status = ROC_CANNOT_RESOLVE_PORT, stdout = [], visited = []\<rparr>
   \<and> net_of [(''1001'', ''infoA'' @ [LF])] 1 ''1001'' = Connected (''infoA'' @ [LF]) 1"
  by code_simp

text \<open>
  Claim C6. For destinations whose peers can each be visited (the connection is refused, or
  it is made, takes the write of the aircraft ID and delivers at least one byte), the
  visiting loop connects to every destination in order, whatever connections are refused;
  the lines then printed are the reply lines of the destinations reached (each reply read
  as a C string, its newline trimmed), in visiting order, with nothing for the others, and
  the visit is a success exactly when no connection was refused. For destinations that are
  all port numbers, this is the output and the status of the whole run. In particular, for
  destinations A, unreachable, B, where A and B each reply with a line of text, the client
  prints the reply line of A, then that of B, and reports failure.
\<close>

theorem partial_failure_traversal:
  "((\<forall>k<length ds. visitable (net k (ds ! k))) \<longrightarrow>
     (\<exists>st. visit_destinations net (malloc_string_array (length ds) junk) ds = Inr st
          \<and> connections st = ds
          \<and> (visitingSuccess st \<longleftrightarrow> (\<forall>k<length ds. net k (ds ! k) \<noteq> Refused))
          \<and> print_destination_info (destinationInfo st) (length ds)
              = concat (map (\<lambda>k. info_line (visit_reply (net k (ds ! k))))
                          [0 ..< length ds])))
   \<and> ((mp = ''-'' \<or> is_unsigned_short mp = Inr True)
     \<and> (\<forall>d\<in>set dests. is_unsigned_short d = Inr True \<and> length d < PORT_NUMBER_LENGTH)
     \<and> (\<forall>k<length dests. visitable (net k (dests ! k))) \<longrightarrow>
     main (prog # ident # mp # dests) mapper net junk =
       Inr \<lparr>status = (if \<forall>k<length dests. net k (dests ! k) \<noteq> Refused
                      then ROC_NORMAL_OPERATION else ROC_FAILED_TO_CONNECT),
            stdout = concat (map (\<lambda>k. info_line (visit_reply (net k (dests ! k))))
                               [0 ..< length dests]),
            visited = dests\<rparr>)
   \<and> ((mp = ''-'' \<or> is_unsigned_short mp = Inr True)
       \<and> is_unsigned_short a = Inr True \<and> length a < PORT_NUMBER_LENGTH
       \<and> is_unsigned_short u = Inr True \<and> length u < PORT_NUMBER_LENGTH
       \<and> is_unsigned_short b = Inr True \<and> length b < PORT_NUMBER_LENGTH
       \<and> net 0 a = Connected (la @ LF # resta) wa \<and> 0 < wa
       \<and> LF \<notin> set la \<and> NUL \<notin> set la \<and> length la < RESPONSE_BUFFER_SIZE - 1
       \<and> net 1 u = Refused
       \<and> net 2 b = Connected (lb @ LF # restb) wb \<and> 0 < wb
       \<and> LF \<notin> set lb \<and> NUL \<notin> set lb \<and> length lb < RESPONSE_BUFFER_SIZE - 1 \<longrightarrow>
       main [prog, ident, mp, a, u, b] mapper net junk =
         Inr \<lparr>status = ROC_FAILED_TO_CONNECT, stdout = la @ [LF] @ lb @ [LF],
              visited = [a, u, b]\<rparr>)"
proof (intro conjI impI)
  assume "\<forall>k<length ds. visitable (net k (ds ! k))"
  then show "\<exists>st. visit_destinations net (malloc_string_array (length ds) junk) ds = Inr st
          \<and> connections st = ds
          \<and> (visitingSuccess st \<longleftrightarrow> (\<forall>k<length ds. net k (ds ! k) \<noteq> Refused))
          \<and> print_destination_info (destinationInfo st) (length ds)
              = concat (map (\<lambda>k. info_line (visit_reply (net k (ds ! k))))
                          [0 ..< length ds])"
    by (rule visit_destinations_result)
next
  assume "(mp = ''-'' \<or> is_unsigned_short mp = Inr True)
     \<and> (\<forall>d\<in>set dests. is_unsigned_short d = Inr True \<and> length d < PORT_NUMBER_LENGTH)
     \<and> (\<forall>k<length dests. visitable (net k (dests ! k)))"
  then show "main (prog # ident # mp # dests) mapper net junk =
       Inr \<lparr>status = (if \<forall>k<length dests. net k (dests ! k) \<noteq> Refused
                      then ROC_NORMAL_OPERATION else ROC_FAILED_TO_CONNECT),
            stdout = concat (map (\<lambda>k. info_line (visit_reply (net k (dests ! k))))
                               [0 ..< length dests]),
            visited = dests\<rparr>"
    using main_ports by blast
next
  assume h: "(mp = ''-'' \<or> is_unsigned_short mp = Inr True)
       \<and> is_unsigned_short a = Inr True \<and> length a < PORT_NUMBER_LENGTH
       \<and> is_unsigned_short u = Inr True \<and> length u < PORT_NUMBER_LENGTH
       \<and> is_unsigned_short b = Inr True \<and> length b < PORT_NUMBER_LENGTH
       \<and> net 0 a = Connected (la @ LF # resta) wa \<and> 0 < wa
       \<and> LF \<notin> set la \<and> NUL \<notin> set la \<and> length la < RESPONSE_BUFFER_SIZE - 1
       \<and> net 1 u = Refused
       \<and> net 2 b = Connected (lb @ LF # restb) wb \<and> 0 < wb
       \<and> LF \<notin> set lb \<and> NUL \<notin> set lb \<and> length lb < RESPONSE_BUFFER_SIZE - 1"
  let ?dests = "[a, u, b]"
  have k3: "\<And>k. k < length ?dests \<longleftrightarrow> k = 0 \<or> k = 1 \<or> k = 2" by auto
  have ports: "\<forall>d\<in>set ?dests. is_unsigned_short d = Inr True \<and> length d < PORT_NUMBER_LENGTH"
    using h by simp
  have v0: "visitable (net 0 a)" and v1: "visitable (net 1 u)" and v2: "visitable (net 2 b)"
    using h by (simp_all add: visitable_def)
  have nonempty: "\<forall>k<length ?dests. visitable (net k (?dests ! k))"
    unfolding k3 using v0 v1 v2 by auto
  have refused: "\<not> (\<forall>k<length ?dests. net k (?dests ! k) \<noteq> Refused)"
    using h by (auto intro: exI[of _ 1])
  have upt3: "[0 ..< length ?dests] = [0, 1, 2]" by (simp add: upt_rec)
  have ra: "visit_reply (net 0 a) = Some la" using h visit_reply_line by simp
  have ru: "visit_reply (net (Suc 0) u) = None" using h by (simp add: visit_reply_def)
  have rb: "visit_reply (net 2 b) = Some lb" using h visit_reply_line by simp
  have out: "concat (map (\<lambda>k. info_line (visit_reply (net k (?dests ! k)))) [0 ..< length ?dests])
      = la @ [LF] @ lb @ [LF]"
    unfolding upt3 by (simp add: ra ru rb info_line_def)
  from main_ports[of mp ?dests net prog ident mapper junk] ports nonempty h
  have "main (prog # ident # mp # ?dests) mapper net junk =
       Inr \<lparr>status = (if \<forall>k<length ?dests. net k (?dests ! k) \<noteq> Refused
                      then ROC_NORMAL_OPERATION else ROC_FAILED_TO_CONNECT),
            stdout = concat (map (\<lambda>k. info_line (visit_reply (net k (?dests ! k))))
                               [0 ..< length ?dests]),
            visited = ?dests\<rparr>" by blast
  then show "main [prog, ident, mp, a, u, b] mapper net junk =
         Inr \<lparr>status = ROC_FAILED_TO_CONNECT, stdout = la @ [LF] @ lb @ [LF],
              visited = [a, u, b]\<rparr>"
    unfolding out using refused by (simp only: if_False)
qed

theorem partial_failure_traversal_witness:
  "is_unsigned_short ''1001'' = Inr True \<and> length ''1001'' < PORT_NUMBER_LENGTH
   \<and> is_unsigned_short ''1002'' = Inr True \<and> length ''1002'' < PORT_NUMBER_LENGTH
   \<and> is_unsigned_short ''1003'' = Inr True \<and> length ''1003'' < PORT_NUMBER_LENGTH
   \<and> net_of [(''1001'', ''infoA'' @ [LF]), (''1003'', ''infoB'' @ [LF])] 0 ''1001''
       = Connected (''infoA'' @ LF # []) 1
   \<and> LF \<notin> set ''infoA'' \<and> NUL \<notin> set ''infoA'' \<and> length ''infoA'' < RESPONSE_BUFFER_SIZE - 1
   \<and> net_of [(''1001'', ''infoA'' @ [LF]), (''1003'', ''infoB'' @ [LF])] 1 ''1002'' = Refused
   \<and> net_of [(''1001'', ''infoA'' @ [LF]), (''1003'', ''infoB'' @ [LF])] 2 ''1003''
       = Connected (''infoB'' @ LF # []) 1
   \<and> LF \<notin> set ''infoB'' \<and> NUL \<notin> set ''infoB'' \<and> length ''infoB'' < RESPONSE_BUFFER_SIZE - 1
   \<and> main [''roc2310'', ''F100'', ''-'', ''1001'', ''1002'', ''1003''] Refused
        (net_of [(''1001'', ''infoA'' @ [LF]), (''1003'', ''infoB'' @ [LF])]) ''junk''
       = Inr \<lparr>status = ROC_FAILED_TO_CONNECT, stdout = ''infoA'' @ [LF] @ ''infoB'' @ [LF],
              visited = [''1001'', ''1002'', ''1003'']\<rparr>
   \<and> visitable (net_of [(''1001'', ''infoA'' @ [LF]), (''1003'', ''infoB'' @ [LF])] 0 ''1001'')
   \<and> visitable (net_of [(''1001'', ''infoA'' @ [LF]), (''1003'', ''infoB'' @ [LF])] 1 ''1002'')
   \<and> visitable (net_of [(''1001'', ''infoA'' @ [LF]), (''1003'', ''infoB'' @ [LF])] 2 ''1003'')
   \<and> main (''roc2310'' # ''F100'' # ''-'' # [''1001'', ''1002'', ''1003'']) Refused
        (net_of [(''1001'', ''infoA'' @ [LF]), (''1003'', ''infoB'' @ [LF])]) ''junk''
       = Inr \<lparr>status = ROC_FAILED_TO_CONNECT,
              stdout = concat (map (\<lambda>k. info_line (visit_reply
                         (net_of [(''1001'', ''infoA'' @ [LF]), (''1003'', ''infoB'' @ [LF])] k
                            ([''1001'', ''1002'', ''1003''] ! k))))
                         [0 ..< length [''1001'', ''1002'', ''1003'']]),
              visited = [''1001'', ''1002'', ''1003'']\<rparr>
   \<and> visit_destinations (net_of [(''1001'', ''infoA'' @ [LF]), (''1003'', ''infoB'' @ [LF])])
         (malloc_string_array (length [''1001'', ''1002'', ''1003'']) ''junk'')
         [''1001'', ''1002'', ''1003'']
       \<noteq> Inl Uninitialised_Read"
proof -
  let ?net = "net_of [(''1001'', ''infoA'' @ [LF]), (''1003'', ''infoB'' @ [LF])]"
  note T = partial_failure_traversal[where mp = "''-''" and a = "''1001''" and u = "''1002''"
      and b = "''1003''" and net = ?net and la = "''infoA''" and resta = "[]"
      and lb = "''infoB''" and restb = "[]" and prog = "''roc2310''" and ident = "''F100''"
      and mapper = Refused and junk = "''junk''" and dests = "[]" and ds = "[]"
      and wa = 1 and wb = 1,
      THEN conjunct2, THEN conjunct2]
  have p: "is_unsigned_short ''1001'' = Inr True" "is_unsigned_short ''1002'' = Inr True"
    "is_unsigned_short ''1003'' = Inr True" by code_simp+
  have l: "length ''1001'' < PORT_NUMBER_LENGTH" "length ''1002'' < PORT_NUMBER_LENGTH"
    "length ''1003'' < PORT_NUMBER_LENGTH" by (simp_all add: PORT_NUMBER_LENGTH_def)
  have n0: "?net 0 ''1001'' = Connected (''infoA'' @ LF # []) 1" by (simp add: net_of_def)
  have n1: "?net 1 ''1002'' = Refused" by (simp add: net_of_def)
  have n2: "?net 2 ''1003'' = Connected (''infoB'' @ LF # []) 1" by (simp add: net_of_def)
  have r: "LF \<notin> set ''infoA''" "NUL \<notin> set ''infoA''"
    "length ''infoA'' < RESPONSE_BUFFER_SIZE - 1"
    "LF \<notin> set ''infoB''" "NUL \<notin> set ''infoB''"
    "length ''infoB'' < RESPONSE_BUFFER_SIZE - 1"
    by (simp_all add: RESPONSE_BUFFER_SIZE_def)
  have pos: "0 < (1::nat)" by simp
  have m: "main [''roc2310'', ''F100'', ''-'', ''1001'', ''1002'', ''1003''] Refused ?net ''junk''
       = Inr \<lparr>status = ROC_FAILED_TO_CONNECT, stdout = ''infoA'' @ [LF] @ ''infoB'' @ [LF],
              visited = [''1001'', ''1002'', ''1003'']\<rparr>"
    using T p l n0 n1 n2 r pos by blast
  let ?ds = "[''1001'', ''1002'', ''1003'']"
  note G = partial_failure_traversal[where mp = "''-''" and a = "''1001''" and u = "''1002''"
      and b = "''1003''" and net = ?net and la = "''infoA''" and resta = "[]"
      and lb = "''infoB''" and restb = "[]" and prog = "''roc2310''" and ident = "''F100''"
      and mapper = Refused and junk = "''junk''" and dests = ?ds and ds = ?ds
      and wa = 1 and wb = 1]
  have e0: "visitable (?net 0 ''1001'')" unfolding n0 by (simp add: visitable_def)
  have e1: "visitable (?net 1 ''1002'')" unfolding n1 by (simp add: visitable_def)
  have e2: "visitable (?net 2 ''1003'')" unfolding n2 by (simp add: visitable_def)
  have k3: "\<And>k. k < length ?ds \<longleftrightarrow> k = 0 \<or> k = 1 \<or> k = 2" by auto
  have nonempty: "\<forall>k<length ?ds. visitable (?net k (?ds ! k))"
    unfolding k3 using e0 e1 e2 by auto
  have ports: "\<forall>d\<in>set ?ds. is_unsigned_short d = Inr True \<and> length d < PORT_NUMBER_LENGTH"
    using p l by simp
  have refused: "\<not> (\<forall>k<length ?ds. ?net k (?ds ! k) \<noteq> Refused)"
    using n1 by (auto intro: exI[of _ 1])
  have "main (''roc2310'' # ''F100'' # ''-'' # ?ds) Refused ?net ''junk'' =
       Inr \<lparr>status = (if \<forall>k<length ?ds. ?net k (?ds ! k) \<noteq> Refused
                      then ROC_NORMAL_OPERATION else ROC_FAILED_TO_CONNECT),
            stdout = concat (map (\<lambda>k. info_line (visit_reply (?net k (?ds ! k))))
                               [0 ..< length ?ds]),
            visited = ?ds\<rparr>"
    using G ports nonempty by blast
  then have g: "main (''roc2310'' # ''F100'' # ''-'' # ?ds) Refused ?net ''junk'' =
       Inr \<lparr>status = ROC_FAILED_TO_CONNECT,
            stdout = concat (map (\<lambda>k. info_line (visit_reply (?net k (?ds ! k))))
                               [0 ..< length ?ds]),
            visited = ?ds\<rparr>"
    using refused by (simp only: if_False)
  have "\<exists>st. visit_destinations ?net (malloc_string_array (length ?ds) ''junk'') ?ds = Inr st
          \<and> connections st = ?ds
          \<and> (visitingSuccess st \<longleftrightarrow> (\<forall>k<length ?ds. ?net k (?ds ! k) \<noteq> Refused))
          \<and> print_destination_info (destinationInfo st) (length ?ds)
              = concat (map (\<lambda>k. info_line (visit_reply (?net k (?ds ! k))))
                          [0 ..< length ?ds])"
    using G nonempty by blast
  then have v: "visit_destinations ?net (malloc_string_array (length ?ds) ''junk'') ?ds
      \<noteq> Inl Uninitialised_Read" by auto
  show ?thesis by (intro conjI p l n0 r(1-3) n1 n2 r(4-6) m e0 e1 e2 g v)
qed

end
